theory Spec2Isabelle
  imports Main
begin

section \<open>Bytes and the character classes of the C library\<close>

text \<open>
  A \<open>std::string\<close> is a sequence of bytes: \<open>string\<close>, whose \<open>length\<close> is
  \<open>size()\<close>. \<open>byte\<close> is \<open>static_cast<uint8_t>\<close>.
\<close>

definition byte :: "char \<Rightarrow> nat" where
  "byte c = of_char c"

text \<open>
  \<open>std::isspace\<close>, \<open>std::ispunct\<close> and \<open>::toupper\<close> in the "C" locale, the
  locale of a program that never calls \<open>setlocale\<close>, and of a stream that was never
  imbued. Bytes from \<open>0x80\<close> on belong to no class there and have no upper case.
\<close>

definition isspace :: "char \<Rightarrow> bool" where
  "isspace c = (byte c = 0x20 \<or> (0x09 \<le> byte c \<and> byte c \<le> 0x0d))"

definition ispunct :: "char \<Rightarrow> bool" where
  "ispunct c =
     ((0x21 \<le> byte c \<and> byte c \<le> 0x2f) \<or> (0x3a \<le> byte c \<and> byte c \<le> 0x40) \<or>
      (0x5b \<le> byte c \<and> byte c \<le> 0x60) \<or> (0x7b \<le> byte c \<and> byte c \<le> 0x7e))"

definition toupper :: "char \<Rightarrow> char" where
  "toupper c = (if 0x61 \<le> byte c \<and> byte c \<le> 0x7a then char_of (byte c - 0x20) else c)"

section \<open>The classifiers of the word merger\<close>

definition IsPunct :: "char \<Rightarrow> bool" where
  "IsPunct c = (c \<noteq> CHR 0x27 \<and> ispunct c)"

definition IsGermanUmlaut :: "string \<Rightarrow> bool" where
  "IsGermanUmlaut word =
     (if length word \<noteq> 2 \<or> byte (word ! 0) \<noteq> 0xc3 then False
      else let c = byte (word ! 1) in
        if c = 0xa4 \<or> c = 0xb6 \<or> c = 0xbc \<or> c = 0x84 \<or> c = 0x96 \<or>
           c = 0x9c \<or> c = 0x9f
        then True else False)"

definition IsSpanishDiacritic :: "string \<Rightarrow> bool" where
  "IsSpanishDiacritic word =
     (if length word \<noteq> 2 \<or> byte (word ! 0) \<noteq> 0xc3 then False
      else let c = byte (word ! 1) in
        if c = 0xa1 \<or> c = 0xa9 \<or> c = 0xad \<or> c = 0xb3 \<or> c = 0xba \<or>
           c = 0xbc \<or> c = 0xb1 \<or> c = 0x81 \<or> c = 0x89 \<or> c = 0x8d \<or>
           c = 0x93 \<or> c = 0x9a \<or> c = 0x9c \<or> c = 0x91
        then True else False)"

definition IsFrenchDiacritic :: "string \<Rightarrow> bool" where
  "IsFrenchDiacritic word =
     (if length word \<noteq> 2 \<or> byte (word ! 0) \<noteq> 0xc3 then False
      else let c = byte (word ! 1) in
        if c = 0xa9 \<or> c = 0xa0 \<or> c = 0xa8 \<or> c = 0xb9 \<or> c = 0xa7 \<or>
           c = 0xa2 \<or> c = 0xaa \<or> c = 0xae \<or> c = 0xb4 \<or> c = 0xbb \<or>
           c = 0xab \<or> c = 0xaf \<or> c = 0xbc \<or> c = 0x89 \<or> c = 0x80 \<or>
           c = 0x88 \<or> c = 0x99 \<or> c = 0x87 \<or> c = 0x82 \<or> c = 0x8a \<or>
           c = 0x8e \<or> c = 0x94 \<or> c = 0x9b \<or> c = 0x8b \<or> c = 0x8f \<or>
           c = 0x9c
        then True else False)"

definition IsSpecial :: "string \<Rightarrow> bool" where
  "IsSpecial w =
     (let ans = (IsGermanUmlaut w \<or> IsSpanishDiacritic w \<or> IsFrenchDiacritic w);
          ans2 = (if length w = 3
                  then (let c0 = byte (w ! 0); c1 = byte (w ! 1); c2 = byte (w ! 2)
                        in if c0 = 0xe2 \<and> c1 = 0x80 \<and> c2 = 0x99 then True else False)
                  else False)
      in ans \<or> ans2)"

section \<open>MergeCharactersIntoWords\<close>

text \<open>
  The two conditions of the loop body, as the source writes them. The reads of \<open>w[0]\<close>
  in the first one stand behind \<open>w.size() == 1\<close>. The second one is reached only when
  the first is false.
\<close>

definition self_terminating :: "string \<Rightarrow> bool" where
  "self_terminating w =
     (length w \<ge> 3 \<or> (length w = 2 \<and> \<not> IsSpecial w) \<or>
      (length w = 1 \<and> (IsPunct (w ! 0) \<or> isspace (w ! 0))))"

definition continuation :: "string \<Rightarrow> bool" where
  "continuation w = (length w = 1 \<or> (length w = 2 \<and> IsSpecial w))"

text \<open>
  Reads by index can leave the container: \<open>words[k]\<close> and \<open>w[0]\<close> are \<open>None\<close> out
  of range, and a merge that makes such a read is \<open>None\<close>.
\<close>

definition vec_at :: "'a list \<Rightarrow> int \<Rightarrow> 'a option" where
  "vec_at xs k = (if 0 \<le> k \<and> k < int (length xs) then Some (xs ! nat k) else None)"

text \<open>The inner loop \<open>for (; prev < i; ++prev) t.append(words[prev])\<close>.\<close>

function append_run :: "string list \<Rightarrow> int \<Rightarrow> int \<Rightarrow> string \<Rightarrow> string option" where
  "append_run words prev i t =
     (if prev < i
      then (case vec_at words prev of
              None \<Rightarrow> None
            | Some w \<Rightarrow> append_run words (prev + 1) i (t @ w))
      else Some t)"
  by pat_completeness auto
termination
  by (relation "measure (\<lambda>(words, prev, i, t). nat (i - prev))") auto

text \<open>
  The \<open>while (i < n)\<close> loop followed by the flush after it. The state is the scan index
  \<open>i\<close>, the start \<open>prev\<close> of the pending run (\<open>-1\<close> when none is pending) and the
  output \<open>ans\<close>. The indices are \<open>int32_t\<close> in the source; \<open>i\<close> stays below \<open>n\<close>,
  which is an \<open>int32_t\<close>, so \<open>++i\<close> never overflows.
\<close>

function merge_loop ::
  "string list \<Rightarrow> int \<Rightarrow> int \<Rightarrow> int \<Rightarrow> string list \<Rightarrow> string list option" where
  "merge_loop words n i prev ans =
     (if i < n then
        (case vec_at words i of
           None \<Rightarrow> None
         | Some w \<Rightarrow>
             if self_terminating w then
               (case (if prev \<noteq> -1
                      then map_option (\<lambda>t. ans @ [t]) (append_run words prev i [])
                      else Some ans) of
                  None \<Rightarrow> None
                | Some ans1 \<Rightarrow>
                    (case vec_at w 0 of
                       None \<Rightarrow> None
                     | Some c \<Rightarrow>
                         merge_loop words n (i + 1) (-1)
                           (if \<not> isspace c then ans1 @ [w] else ans1)))
             else if continuation w then
               merge_loop words n (i + 1) (if prev = -1 then i else prev) ans
             else merge_loop words n (i + 1) prev ans)
      else if prev \<noteq> -1
           then map_option (\<lambda>t. ans @ [t]) (append_run words prev i [])
           else Some ans)"
  by pat_completeness auto
termination
  by (relation "measure (\<lambda>(words, n, i, prev, ans). nat (n - i))") auto

text \<open>\<open>static_cast<int32_t>(words.size())\<close>: the size modulo \<open>2^32\<close>, read as signed.\<close>

definition int32_of_size :: "nat \<Rightarrow> int" where
  "int32_of_size k =
     (let m = int k mod 4294967296 in if m < 2147483648 then m else m - 4294967296)"

definition MergeCharactersIntoWords :: "string list \<Rightarrow> string list option" where
  "MergeCharactersIntoWords words =
     (let n = int32_of_size (length words) in merge_loop words n 0 (-1) [])"

subsection \<open>The loop as a function of the pending text\<close>

text \<open>
  What the loop computes from a scan position on, given the text of the pending run
  (\<open>None\<close> when no run is pending) and the fragments still to scan. It is proved
  below to be what \<open>merge_loop\<close> returns; the properties of the merger are proved
  through it. A fragment that meets neither condition leaves the run pending; the
  flush appends \<open>words[prev..i)\<close>, that fragment included.
\<close>

fun merge_from :: "string option \<Rightarrow> string list \<Rightarrow> string list" where
  "merge_from pend [] = (case pend of None \<Rightarrow> [] | Some t \<Rightarrow> [t])"
| "merge_from pend (w # ws) =
     (if self_terminating w then
        (case pend of None \<Rightarrow> [] | Some t \<Rightarrow> [t]) @
        (if isspace (hd w) then [] else [w]) @ merge_from None ws
      else if continuation w then
        merge_from (Some (case pend of None \<Rightarrow> w | Some t \<Rightarrow> t @ w)) ws
      else merge_from (map_option (\<lambda>t. t @ w) pend) ws)"

text \<open>The text of the pending run \<open>[prev, i)\<close>.\<close>

definition pending :: "string list \<Rightarrow> int \<Rightarrow> int \<Rightarrow> string option" where
  "pending words prev i =
     (if prev = -1 then None else Some (concat (take (nat (i - prev)) (drop (nat prev) words))))"

text \<open>A fragment that reaches the \<open>SHERPA_LOGE("Ignore %s", ...)\<close> line.\<close>

definition unrecognized :: "string \<Rightarrow> bool" where
  "unrecognized w = (\<not> self_terminating w \<and> \<not> continuation w)"

text \<open>A text that is not empty and does not begin with a whitespace byte.\<close>

definition word_start :: "string \<Rightarrow> bool" where
  "word_start t = (t \<noteq> [] \<and> \<not> isspace (t ! 0))"

section \<open>String streams\<close>

text \<open>
  A \<open>std::istringstream\<close> as far as this file uses it: the buffer, the get position
  and the state bits \<open>eofbit\<close> and \<open>failbit\<close> (nothing here sets \<open>badbit\<close>).
\<close>

record istream =
  buf :: string
  pos :: nat
  eofbit :: bool
  failbit :: bool

definition istringstream :: "string \<Rightarrow> istream" where
  "istringstream str = \<lparr>buf = str, pos = 0, eofbit = False, failbit = False\<rparr>"

definition good :: "istream \<Rightarrow> bool" where
  "good s = (\<not> eofbit s \<and> \<not> failbit s)"

definition fail :: "istream \<Rightarrow> bool" where
  "fail s = failbit s"

definition clear :: "istream \<Rightarrow> istream" where
  "clear s = s\<lparr>eofbit := False, failbit := False\<rparr>"

definition setstate_failbit :: "istream \<Rightarrow> istream" where
  "setstate_failbit s = s\<lparr>failbit := True\<rparr>"

text \<open>\<open>seekg(p)\<close> clears \<open>eofbit\<close>, then moves the get position unless the stream has failed.\<close>

definition seekg :: "istream \<Rightarrow> nat \<Rightarrow> istream" where
  "seekg s p =
     (let s1 = s\<lparr>eofbit := False\<rparr> in
      if fail s1 then s1
      else if p \<le> length (buf s1) then s1\<lparr>pos := p\<rparr>
      else setstate_failbit s1)"

text \<open>
  \<open>tellg()\<close> builds a sentry without skipping whitespace: on a stream that is not
  \<open>good()\<close> the sentry sets \<open>failbit\<close> and the answer is \<open>pos_type(-1)\<close>, here
  \<open>None\<close>.
\<close>

definition tellg :: "istream \<Rightarrow> istream \<times> nat option" where
  "tellg s = (if \<not> good s then (setstate_failbit s, None) else (s, Some (pos s)))"

text \<open>
  The sentry of a formatted read: it fails on a stream that is not \<open>good()\<close>, skips
  leading whitespace, and fails with \<open>eofbit\<close> and \<open>failbit\<close> when that reaches the
  end of the buffer.
\<close>

definition sentry :: "istream \<Rightarrow> istream \<times> bool" where
  "sentry s =
     (if \<not> good s then (setstate_failbit s, False)
      else let rest = drop (pos s) (buf s); k = length (takeWhile isspace rest) in
        if k = length rest
        then (s\<lparr>pos := pos s + k, eofbit := True, failbit := True\<rparr>, False)
        else (s\<lparr>pos := pos s + k\<rparr>, True))"

text \<open>
  \<open>in >> str\<close> for a \<open>std::string\<close>: the characters up to the next whitespace or
  the end of the buffer, which sets \<open>eofbit\<close>. Both strings read this way in the
  source are fresh, so a failed read leaves them empty.
\<close>

definition get_string :: "istream \<Rightarrow> istream \<times> string" where
  "get_string s =
     (let (s1, ok) = sentry s in
      if \<not> ok then (s1, [])
      else let tok = takeWhile (\<lambda>c. \<not> isspace c) (drop (pos s1) (buf s1));
               p = pos s1 + length tok
           in (s1\<lparr>pos := p, eofbit := (p = length (buf s1))\<rparr>, tok))"

text \<open>
  The template parameter \<open>T\<close> (\<open>float\<close> or \<open>double\<close>), as far as
  \<open>NumberIstream<T>\<close> uses it. The standard library's conversion behind
  \<open>in_ >> x\<close> is not code of this repository: \<open>num_get T cs\<close> gives, for the
  characters \<open>cs\<close> at the get position, how many of them the conversion consumes and
  the value it stores, \<open>None\<close> when it fails. The other fields are
  \<open>std::numeric_limits<T>::infinity()\<close>, \<open>quiet_NaN()\<close>, unary minus and \<open>0\<close>.
\<close>

record 'f real_type =
  num_get :: "string \<Rightarrow> nat \<times> 'f option"
  infinity :: 'f
  quiet_NaN :: 'f
  negate :: "'f \<Rightarrow> 'f"
  zero_value :: 'f

text \<open>
  \<open>in_ >> x\<close> for \<open>T\<close>: \<open>eofbit\<close> is set when the conversion reads to the end of
  the buffer, \<open>failbit\<close> when it fails.
\<close>

definition get_real :: "'f real_type \<Rightarrow> istream \<Rightarrow> istream \<times> 'f option" where
  "get_real T s =
     (let (s1, ok) = sentry s in
      if \<not> ok then (s1, None)
      else let rest = drop (pos s1) (buf s1);
               (k0, r) = num_get T rest;
               k = min k0 (length rest)
           in (s1\<lparr>pos := pos s1 + k, eofbit := (k = length rest), failbit := (r = None)\<rparr>, r))"

section \<open>NumberIstream and ConvertStringToReal\<close>

text \<open>\<open>rem.find_first_not_of(c)\<close>, with \<open>None\<close> for \<open>npos\<close>.\<close>

primrec find_first_not_of :: "string \<Rightarrow> char \<Rightarrow> nat option" where
  "find_first_not_of [] ch = None"
| "find_first_not_of (c # cs) ch =
     (if c \<noteq> ch then Some 0 else map_option Suc (find_first_not_of cs ch))"

definition RemainderIsOnlySpaces :: "istream \<Rightarrow> istream \<times> bool" where
  "RemainderIsOnlySpaces s =
     (let (s1, p) = tellg s;
          (s2, nonspace) =
            (if p \<noteq> None
             then (let (s', rem) = get_string s1
                   in (s', find_first_not_of rem (CHR '' '') \<noteq> None))
             else (s1, False))
      in if nonspace then (s2, False) else (clear s2, True))"

text \<open>The entries of \<open>inf_nan_map\<close>, in the order the source inserts them.\<close>

definition inf_nan_map :: "'f real_type \<Rightarrow> (string \<times> 'f) list" where
  "inf_nan_map T =
     [(''INF'', infinity T),
      (''+INF'', infinity T),
      (''-INF'', negate T (infinity T)),
      (''INFINITY'', infinity T),
      (''+INFINITY'', infinity T),
      (''-INFINITY'', negate T (infinity T)),
      (''NAN'', quiet_NaN T),
      (''+NAN'', quiet_NaN T),
      (''-NAN'', negate T (quiet_NaN T)),
      (''1.#INF'', infinity T),
      (''-1.#INF'', negate T (infinity T)),
      (''1.#QNAN'', quiet_NaN T),
      (''-1.#QNAN'', negate T (quiet_NaN T))]"

text \<open>
  \<open>x\<close> is the value held by \<open>*x\<close>, \<open>None\<close> when nothing was stored yet; the
  result is the stream and the value held afterwards.
\<close>

definition ParseOnFail :: "'f real_type \<Rightarrow> istream \<Rightarrow> 'f option \<Rightarrow> istream \<times> 'f option" where
  "ParseOnFail T s x =
     (let s1 = seekg (clear s) 0;
          (s2, str) = get_string s1
      in if fail s2 then (setstate_failbit s2, x)
         else let (s3, only) = RemainderIsOnlySpaces s2 in
           if \<not> only then (setstate_failbit s3, x)
           else let str' = map toupper str in
             (case map_of (inf_nan_map T) str' of
                Some v \<Rightarrow> (s3, Some v)
              | None \<Rightarrow> (setstate_failbit s3, x)))"

text \<open>\<open>NumberIstream<T>::operator>>\<close>.\<close>

definition NumberIstream_get :: "'f real_type \<Rightarrow> istream \<Rightarrow> istream \<times> 'f option" where
  "NumberIstream_get T s =
     (if \<not> good s then (s, None)
      else let (s1, x) = get_real T s in
        if \<not> fail s1
        then (let (s2, only) = RemainderIsOnlySpaces s1
              in if only then (s2, x) else ParseOnFail T s2 x)
        else ParseOnFail T s1 x)"

text \<open>
  \<open>Some v\<close>: the function returns true and \<open>*out\<close> holds \<open>v\<close>. \<open>None\<close>: it
  returns false; what \<open>*out\<close> holds then is left open, and no caller in this file
  reads it.
\<close>

definition ConvertStringToReal :: "'f real_type \<Rightarrow> string \<Rightarrow> 'f option" where
  "ConvertStringToReal T str =
     (let (iss, out) = NumberIstream_get T (istringstream str)
      in if fail iss then None else out)"

section \<open>SplitStringToVector and SplitStringToFloats\<close>

text \<open>
  \<open>full.find_first_of(delim, start)\<close>, with \<open>None\<close> for \<open>npos\<close>; \<open>delim\<close> is
  the characters of the C string. \<open>full.substr(start, found - start)\<close> runs to the
  end of \<open>full\<close> when \<open>found\<close> is \<open>npos\<close>. \<open>start\<close> never exceeds the size of
  \<open>full\<close>, so \<open>substr\<close> does not throw.
\<close>

primrec find_from :: "(char \<Rightarrow> bool) \<Rightarrow> string \<Rightarrow> nat option" where
  "find_from P [] = None"
| "find_from P (c # cs) = (if P c then Some 0 else map_option Suc (find_from P cs))"

definition find_first_of :: "string \<Rightarrow> string \<Rightarrow> nat \<Rightarrow> nat option" where
  "find_first_of full delim start =
     map_option (\<lambda>k. start + k) (find_from (\<lambda>c. c \<in> set delim) (drop start full))"

definition substr :: "string \<Rightarrow> nat \<Rightarrow> nat option \<Rightarrow> string" where
  "substr full start found =
     (case found of None \<Rightarrow> drop start full | Some k \<Rightarrow> take (k - start) (drop start full))"

text \<open>
  The \<open>while (found != npos)\<close> loop: \<open>found\<close> starts at 0, so the body runs at
  least once, and the test follows each run of the body.
\<close>

function split_loop :: "string \<Rightarrow> string \<Rightarrow> bool \<Rightarrow> nat \<Rightarrow> string list \<Rightarrow> string list" where
  "split_loop full delim omit_empty_strings start out =
     (let found = find_first_of full delim start;
          out1 = (if \<not> omit_empty_strings \<or> (found \<noteq> Some start \<and> start \<noteq> length full)
                  then out @ [substr full start found] else out)
      in case found of
           None \<Rightarrow> out1
         | Some k \<Rightarrow> split_loop full delim omit_empty_strings (k + 1) out1)"
  by pat_completeness auto
termination
proof (relation "measure (\<lambda>(full, delim, omit, start, out). Suc (length full) - start)")
  show "wf (measure (\<lambda>(full, delim, omit, start, out). Suc (length full) - start))"
    by simp
next
  fix full delim :: string and omit_empty_strings :: bool and start :: nat
    and out out1 :: "string list" and found :: "nat option" and k :: nat
  assume found: "found = find_first_of full delim start" and k: "found = Some k"
  have less: "find_from P cs = Some j \<Longrightarrow> j < length cs" for P cs j
    by (induction cs arbitrary: j) (auto split: if_splits)
  have "map_option (\<lambda>j. start + j) (find_from (\<lambda>c. c \<in> set delim) (drop start full)) = Some k"
    using found k by (simp add: find_first_of_def)
  then obtain j where "find_from (\<lambda>c. c \<in> set delim) (drop start full) = Some j" and "k = start + j"
    by (cases "find_from (\<lambda>c. c \<in> set delim) (drop start full)") auto
  then have "start \<le> k \<and> k < length full"
    using less [of "\<lambda>c. c \<in> set delim" "drop start full" j] by auto
  then show "((full, delim, omit_empty_strings, k + 1, out1), (full, delim, omit_empty_strings, start, out))
      \<in> measure (\<lambda>(full, delim, omit, start, out). Suc (length full) - start)"
    by auto
qed

definition SplitStringToVector :: "string \<Rightarrow> string \<Rightarrow> bool \<Rightarrow> string list" where
  "SplitStringToVector full delim omit_empty_strings = split_loop full delim omit_empty_strings 0 []"

text \<open>\<open>out->resize(n)\<close>: the first \<open>n\<close> elements are kept, new ones are \<open>0\<close>.\<close>

definition resize :: "'a list \<Rightarrow> nat \<Rightarrow> 'a \<Rightarrow> 'a list" where
  "resize xs n v = take n xs @ replicate (n - length xs) v"

text \<open>The \<open>for\<close> loop of \<open>SplitStringToFloats\<close>; the result is the returned flag and \<open>*out\<close>.\<close>

function floats_loop :: "'f real_type \<Rightarrow> string list \<Rightarrow> nat \<Rightarrow> 'f list \<Rightarrow> bool \<times> 'f list" where
  "floats_loop T split i out =
     (if i < length split
      then (case ConvertStringToReal T (split ! i) of
              None \<Rightarrow> (False, out)
            | Some f \<Rightarrow> floats_loop T split (i + 1) (out[i := f]))
      else (True, out))"
  by pat_completeness auto
termination
  by (relation "measure (\<lambda>(T, split, i, out). length split - i)") auto

text \<open>
  \<open>out\<close> is what the caller's vector holds at the call. The first test reads the first
  byte of \<open>full.c_str()\<close>, which is \<open>0\<close> for an empty string and for a string that
  begins with a null byte.
\<close>

definition SplitStringToFloats ::
  "'f real_type \<Rightarrow> string \<Rightarrow> string \<Rightarrow> bool \<Rightarrow> 'f list \<Rightarrow> bool \<times> 'f list" where
  "SplitStringToFloats T full delim omit_empty_strings out =
     (if (case full of [] \<Rightarrow> True | c # cs \<Rightarrow> byte c = 0) then (True, [])
      else let split = SplitStringToVector full delim omit_empty_strings;
               out1 = resize out (length split) (zero_value T)
           in floats_loop T split 0 out1)"

section \<open>A decimal instance of the number type\<close>

text \<open>
  An instance of \<open>real_type\<close> to run the functions on: values are exact decimals
  \<open>Num m e\<close> for \<open>m * 10^e\<close>, the two infinities and NaN with its sign bit. Its
  \<open>num_get\<close> reads what the "C" locale's \<open>num_get\<close> of libstdc++ reads for a
  \<open>double\<close>: a sign, digits with at most one decimal point, and after a digit an
  exponent letter with a sign and digits; the conversion fails without a digit in the
  mantissa or after the exponent letter. Rounding and overflow to \<open>HUGE_VAL\<close> are
  not modelled.
\<close>

datatype real_value = Num int int | PInf | NInf | QNaN bool

definition isdigit :: "char \<Rightarrow> bool" where
  "isdigit c = (0x30 \<le> byte c \<and> byte c \<le> 0x39)"

definition digits_value :: "string \<Rightarrow> nat" where
  "digits_value ds = foldl (\<lambda>n c. 10 * n + (byte c - 0x30)) 0 ds"

definition take_sign :: "string \<Rightarrow> string \<times> string" where
  "take_sign s =
     (case s of
        [] \<Rightarrow> ([], [])
      | c # r \<Rightarrow> if c = CHR ''+'' \<or> c = CHR ''-'' then ([c], r) else ([], s))"

definition decimal_num_get :: "string \<Rightarrow> nat \<times> real_value option" where
  "decimal_num_get s =
     (let (sg, s1) = take_sign s;
          ip = takeWhile isdigit s1;
          s2 = dropWhile isdigit s1;
          dot = (s2 \<noteq> [] \<and> hd s2 = CHR ''.'');
          fp = (if dot then takeWhile isdigit (tl s2) else []);
          s3 = (if dot then dropWhile isdigit (tl s2) else s2);
          mant = (ip \<noteq> [] \<or> fp \<noteq> []);
          sci = (mant \<and> s3 \<noteq> [] \<and> (hd s3 = CHR ''e'' \<or> hd s3 = CHR ''E''));
          (esg, s4) = (if sci then take_sign (tl s3) else ([], s3));
          ed = (if sci then takeWhile isdigit s4 else []);
          k = length sg + length ip + (if dot then 1 + length fp else 0) +
              (if sci then 1 + length esg + length ed else 0);
          m = int (digits_value (ip @ fp));
          e = (if esg = ''-'' then - int (digits_value ed) else int (digits_value ed)) -
              int (length fp)
      in (k, if mant \<and> (if sci then ed \<noteq> [] else True)
             then Some (Num (if sg = ''-'' then - m else m) e) else None))"

definition decimal_negate :: "real_value \<Rightarrow> real_value" where
  "decimal_negate v =
     (case v of Num m e \<Rightarrow> Num (- m) e | PInf \<Rightarrow> NInf | NInf \<Rightarrow> PInf | QNaN b \<Rightarrow> QNaN (\<not> b))"

definition decimal_type :: "real_value real_type" where
  "decimal_type =
     \<lparr>num_get = decimal_num_get, infinity = PInf, quiet_NaN = QNaN False,
      negate = decimal_negate, zero_value = Num 0 0\<rparr>"

section \<open>ConvertStringToReal as a function of the text\<close>

text \<open>The characters from the get position on, and what the caller sees of a read.\<close>

definition unread :: "istream \<Rightarrow> string" where
  "unread s = drop (pos s) (buf s)"

definition outcome :: "istream \<times> 'f option \<Rightarrow> 'f option" where
  "outcome r = (if fail (fst r) then None else snd r)"

text \<open>
  \<open>lookup_token T r\<close>, for a text \<open>r\<close> that does not start with whitespace: the
  table entry for the upper-cased first token when only whitespace follows it.
  \<open>parse_real\<close> is proved below to be \<open>ConvertStringToReal\<close>.
\<close>

definition lookup_token :: "'f real_type \<Rightarrow> string \<Rightarrow> 'f option" where
  "lookup_token T r =
     (if r \<noteq> [] \<and> list_all isspace (dropWhile (\<lambda>c. \<not> isspace c) r)
      then map_of (inf_nan_map T) (map toupper (takeWhile (\<lambda>c. \<not> isspace c) r))
      else None)"

definition parse_real :: "'f real_type \<Rightarrow> string \<Rightarrow> 'f option" where
  "parse_real T str =
     (let r = dropWhile isspace str in
      if r = [] then None
      else let (k, res) = num_get T r in
        if res \<noteq> None \<and> list_all isspace (drop k r) then res
        else lookup_token T r)"

declare append_run.simps [simp del] merge_loop.simps [simp del]

declare floats_loop.simps [simp del] split_loop.simps [simp del]

section \<open>The merge loop computes \<open>merge_from\<close>\<close>

lemma vec_at_Some: "0 \<le> k \<Longrightarrow> k < int (length xs) \<Longrightarrow> vec_at xs k = Some (xs ! nat k)"
  by (simp add: vec_at_def)

lemma take_drop_step:
  assumes "0 \<le> p" "p < i" "i \<le> int (length xs)"
  shows "take (nat (i - p)) (drop (nat p) xs) = xs ! nat p # take (nat (i - (p + 1))) (drop (nat (p + 1)) xs)"
proof -
  have a: "nat p < length xs" using assms by linarith
  have b: "nat (i - p) = Suc (nat (i - (p + 1)))" using assms by linarith
  have c: "nat (p + 1) = Suc (nat p)" using assms by linarith
  show ?thesis unfolding b c using a by (simp add: Cons_nth_drop_Suc [symmetric])
qed

lemma append_run_eq:
  "0 \<le> prev \<Longrightarrow> i \<le> int (length words) \<Longrightarrow>
   append_run words prev i t = Some (t @ concat (take (nat (i - prev)) (drop (nat prev) words)))"
proof (induction words prev i t rule: append_run.induct)
  case (1 words prev i t)
  show ?case
  proof (cases "prev < i")
    case True
    have v: "vec_at words prev = Some (words ! nat prev)"
      using 1 True by (simp add: vec_at_def)
    have ih: "append_run words (prev + 1) i (t @ words ! nat prev) =
        Some ((t @ words ! nat prev) @ concat (take (nat (i - (prev + 1))) (drop (nat (prev + 1)) words)))"
      using "1.IH" [OF True v] 1(2,3) by simp
    show ?thesis
      using True v ih take_drop_step [OF "1.prems"(1) True "1.prems"(2)]
      by (subst append_run.simps) simp
  next
    case False
    then show ?thesis by (subst append_run.simps) simp
  qed
qed

lemma flush_eq:
  assumes "prev = -1 \<or> 0 \<le> prev" "i \<le> int (length words)"
  shows "(if prev \<noteq> -1 then map_option (\<lambda>t. ans @ [t]) (append_run words prev i []) else Some ans)
     = Some (ans @ (case pending words prev i of None \<Rightarrow> [] | Some t \<Rightarrow> [t]))"
  using assms by (auto simp: pending_def append_run_eq)

lemma take_drop_snoc:
  assumes "0 \<le> p" "p \<le> i" "i < int (length xs)"
  shows "take (nat (i + 1 - p)) (drop (nat p) xs) = take (nat (i - p)) (drop (nat p) xs) @ [xs ! nat i]"
proof -
  have a: "nat (i + 1 - p) = Suc (nat (i - p))" using assms by linarith
  have b: "nat (i - p) < length (drop (nat p) xs)" using assms by simp
  have c: "drop (nat p) xs ! nat (i - p) = xs ! nat i" using assms by (simp add: nat_diff_distrib)
  show ?thesis unfolding a using b c by (simp add: take_Suc_conv_app_nth)
qed

lemma merge_loop_eq:
  "0 \<le> i \<Longrightarrow> i \<le> int (length words) \<Longrightarrow> n \<le> int (length words) \<Longrightarrow>
   prev = -1 \<or> (0 \<le> prev \<and> prev < i) \<Longrightarrow>
   merge_loop words n i prev ans =
     Some (ans @ merge_from (pending words prev i) (take (nat (n - i)) (drop (nat i) words)))"
proof (induction words n i prev ans rule: merge_loop.induct)
  case (1 words n i prev ans)
  show ?case
  proof (cases "i < n")
    case False
    then have "take (nat (n - i)) (drop (nat i) words) = []" by simp
    then show ?thesis
      using False flush_eq [of prev i words ans] "1.prems"
      by (subst merge_loop.simps) auto
  next
    case True
    define w where "w = words ! nat i"
    have v: "vec_at words i = Some w"
      using 1 True by (simp add: vec_at_def w_def)
    have td: "take (nat (n - i)) (drop (nat i) words) = w # take (nat (n - (i + 1))) (drop (nat (i + 1)) words)"
      unfolding w_def using take_drop_step [of i n words] True "1.prems" by simp
    have i1: "0 \<le> i + 1" "i + 1 \<le> int (length words)" using True "1.prems" by auto
    show ?thesis
    proof (cases "self_terminating w")
      case st: True
      then have ne: "w \<noteq> []" by (auto simp: self_terminating_def)
      then have c: "vec_at w 0 = Some (hd w)"
        by (cases w) (simp_all add: vec_at_def)
      have fl: "(if prev \<noteq> -1 then map_option (\<lambda>t. ans @ [t]) (append_run words prev i []) else Some ans)
         = Some (ans @ (case pending words prev i of None \<Rightarrow> [] | Some t \<Rightarrow> [t]))"
        using flush_eq [of prev i words ans] "1.prems" by auto
      define fl_out where "fl_out = ans @ (case pending words prev i of None \<Rightarrow> [] | Some t \<Rightarrow> [t])"
      define A where "A = (if \<not> isspace (hd w) then fl_out @ [w] else fl_out)"
      have fl': "(if prev \<noteq> -1 then map_option (\<lambda>t. ans @ [t]) (append_run words prev i []) else Some ans) = Some fl_out"
        using fl by (simp add: fl_out_def)
      have step: "merge_loop words n i prev ans = merge_loop words n (i + 1) (-1) A"
        by (subst merge_loop.simps) (simp only: True v st c fl' A_def if_True option.case)
      have ih: "merge_loop words n (i + 1) (-1) A =
          Some (A @ merge_from (pending words (-1) (i + 1)) (take (nat (n - (i + 1))) (drop (nat (i + 1)) words)))"
        unfolding A_def
        by (rule "1.IH"(1) [OF True v st fl' c i1 "1.prems"(3)]) simp
      have pn: "pending words (-1) (i + 1) = None" by (simp add: pending_def)
      show ?thesis
        unfolding step ih td pn using st
        by (simp add: A_def fl_out_def)
    next
      case nst: False
      show ?thesis
      proof (cases "continuation w")
        case ct: True
        have p: "(if prev = -1 then i else prev) = -1 \<or> 0 \<le> (if prev = -1 then i else prev) \<and> (if prev = -1 then i else prev) < i + 1"
          using "1.prems" by auto
        have ih: "merge_loop words n (i + 1) (if prev = -1 then i else prev) ans =
            Some (ans @ merge_from (pending words (if prev = -1 then i else prev) (i + 1)) (take (nat (n - (i + 1))) (drop (nat (i + 1)) words)))"
          by (rule "1.IH"(2) [OF True v nst ct i1 "1.prems"(3) p])
        have pe: "pending words (if prev = -1 then i else prev) (i + 1) =
            Some (case pending words prev i of None \<Rightarrow> w | Some t \<Rightarrow> t @ w)"
          using take_drop_snoc [of prev i words] take_drop_snoc [of i i words] True "1.prems"
          by (auto simp: pending_def w_def)
        show ?thesis
          apply (subst merge_loop.simps)
          using True v nst ct td ih pe by simp
      next
        case nct: False
        have p: "prev = -1 \<or> 0 \<le> prev \<and> prev < i + 1"
          using "1.prems" by auto
        have ih: "merge_loop words n (i + 1) prev ans =
            Some (ans @ merge_from (pending words prev (i + 1)) (take (nat (n - (i + 1))) (drop (nat (i + 1)) words)))"
          by (rule "1.IH"(3) [OF True v nst nct i1 "1.prems"(3) p])
        have pe: "pending words prev (i + 1) = map_option (\<lambda>t. t @ w) (pending words prev i)"
          using take_drop_snoc [of prev i words] True "1.prems"
          by (auto simp: pending_def w_def)
        show ?thesis
          apply (subst merge_loop.simps)
          using True v nst nct td ih pe by simp
      qed
    qed
  qed
qed

text \<open>
  The conversion to \<open>int32_t\<close> keeps a size below \<open>2^31\<close> and never yields more
  than the size, so the loop reads inside the vector whatever its length.
\<close>

lemma int32_of_size_small: "k < 2147483648 \<Longrightarrow> int32_of_size k = int k"
  unfolding int32_of_size_def by (simp add: Let_def)

lemma int32_of_size_le: "int32_of_size k \<le> int k"
proof -
  have "int k mod 4294967296 \<le> int k" by (rule zmod_le_nonneg_dividend) simp
  then show ?thesis unfolding int32_of_size_def by (simp add: Let_def)
qed

lemma MergeCharactersIntoWords_eq:
  "MergeCharactersIntoWords words =
     Some (merge_from None (take (nat (int32_of_size (length words))) words))"
  unfolding MergeCharactersIntoWords_def Let_def
  using merge_loop_eq [of 0 words "int32_of_size (length words)" "-1" "[]"] int32_of_size_le [of "length words"]
  by (simp add: pending_def)

lemma MergeCharactersIntoWords_small:
  "length words < 2147483648 \<Longrightarrow> MergeCharactersIntoWords words = Some (merge_from None words)"
  by (simp add: MergeCharactersIntoWords_eq int32_of_size_small)

lemma self_terminating_nonempty: "self_terminating w \<Longrightarrow> w \<noteq> []"
  by (auto simp: self_terminating_def)

lemma hd_nth0: "w \<noteq> [] \<Longrightarrow> hd w = w ! 0"
  by (cases w) simp_all

section \<open>Properties of \<open>merge_from\<close>\<close>

lemma unrecognized_iff: "unrecognized w \<longleftrightarrow> w = []"
proof -
  have "length w = 0 \<or> length w = 1 \<or> length w = 2 \<or> length w \<ge> 3" by arith
  then show ?thesis
    unfolding unrecognized_def self_terminating_def continuation_def by auto
qed

lemma not_classified_empty: "\<not> self_terminating w \<Longrightarrow> \<not> continuation w \<Longrightarrow> w = []"
  using unrecognized_iff [of w] by (simp add: unrecognized_def)

lemma merge_from_split:
  "self_terminating w \<Longrightarrow>
   merge_from pend (pre @ w # post) =
     merge_from pend pre @ (if isspace (w ! 0) then [] else [w]) @ merge_from None post"
proof (induction pre arbitrary: pend)
  case Nil
  then show ?case using hd_nth0 [OF self_terminating_nonempty [OF Nil]] by simp
next
  case (Cons a pre)
  then show ?case by simp
qed

lemma merge_from_run:
  "\<forall>f\<in>set run. \<not> self_terminating f \<Longrightarrow>
   merge_from (Some t) (run @ rest) = merge_from (Some (t @ concat run)) rest"
  by (induction run arbitrary: t) auto

lemma merge_from_concat:
  "concat (merge_from pend ws) =
     (case pend of None \<Rightarrow> [] | Some t \<Rightarrow> t) @
     concat (filter (\<lambda>w. \<not> (self_terminating w \<and> isspace (w ! 0))) ws)"
proof (induction ws arbitrary: pend)
  case Nil
  then show ?case by (simp split: option.splits)
next
  case (Cons w ws)
  show ?case
  proof (cases "self_terminating w")
    case True
    then show ?thesis using Cons hd_nth0 [OF self_terminating_nonempty [OF True]]
      by (simp split: option.splits)
  next
    case False
    then show ?thesis using Cons not_classified_empty [of w]
      by (auto split: option.splits)
  qed
qed

lemma special_first_byte: "length w = 2 \<Longrightarrow> IsSpecial w \<Longrightarrow> byte (w ! 0) = 0xc3"
  unfolding IsSpecial_def IsGermanUmlaut_def IsSpanishDiacritic_def IsFrenchDiacritic_def
  by (auto simp: Let_def split: if_splits)

lemma continuation_first_byte:
  assumes "\<not> self_terminating w" "continuation w"
  shows "w \<noteq> [] \<and> \<not> isspace (w ! 0)"
proof -
  have ne: "w \<noteq> []" using assms(2) by (auto simp: continuation_def)
  have "\<not> isspace (w ! 0)"
  proof (cases "length w = 1")
    case True
    then show ?thesis using assms(1) by (simp add: self_terminating_def)
  next
    case False
    then have "length w = 2" "IsSpecial w" using assms(2) by (auto simp: continuation_def)
    then have "byte (w ! 0) = 0xc3" by (rule special_first_byte)
    then show ?thesis by (simp add: isspace_def)
  qed
  then show ?thesis using ne by simp
qed

lemma word_start_append: "word_start t \<Longrightarrow> word_start (t @ w)"
  by (cases t) (simp_all add: word_start_def)

lemma merge_from_word_start:
  "(\<And>t. pend = Some t \<Longrightarrow> word_start t) \<Longrightarrow> w \<in> set (merge_from pend ws) \<Longrightarrow> word_start w"
proof (induction ws arbitrary: pend)
  case Nil
  then show ?case by (auto split: option.splits)
next
  case (Cons a ws)
  show ?case
  proof (cases "self_terminating a")
    case True
    have "w \<in> set (case pend of None \<Rightarrow> [] | Some t \<Rightarrow> [t]) \<or>
          w \<in> set (if isspace (hd a) then [] else [a]) \<or> w \<in> set (merge_from None ws)"
      using Cons.prems(2) True by auto
    then show ?thesis
    proof (elim disjE)
      assume "w \<in> set (case pend of None \<Rightarrow> [] | Some t \<Rightarrow> [t])"
      then show ?thesis using Cons.prems(1) by (auto split: option.splits)
    next
      assume "w \<in> set (if isspace (hd a) then [] else [a])"
      then show ?thesis
        using hd_nth0 [OF self_terminating_nonempty [OF True]] self_terminating_nonempty [OF True]
        by (auto simp: word_start_def split: if_splits)
    next
      assume "w \<in> set (merge_from None ws)"
      then show ?thesis using Cons.IH [of None] by simp
    qed
  next
    case False
    show ?thesis
    proof (cases "continuation a")
      case True
      have m: "w \<in> set (merge_from (Some (case pend of None \<Rightarrow> a | Some t \<Rightarrow> t @ a)) ws)"
        using Cons.prems(2) False True by simp
      have "word_start (case pend of None \<Rightarrow> a | Some t \<Rightarrow> t @ a)"
        using continuation_first_byte [OF False True] Cons.prems(1)
        by (auto simp: word_start_append split: option.splits) (simp add: word_start_def)
      then show ?thesis using Cons.IH [OF _ m] by simp
    next
      case nc: False
      have m: "w \<in> set (merge_from (map_option (\<lambda>t. t @ a) pend) ws)"
        using Cons.prems(2) False nc by simp
      show ?thesis
        by (rule Cons.IH [OF _ m]) (use Cons.prems(1) in \<open>auto simp: word_start_append\<close>)
    qed
  qed
qed

lemma merge_from_length:
  "length (merge_from pend ws) \<le> length ws + (case pend of None \<Rightarrow> 0 | Some t \<Rightarrow> 1)"
proof (induction ws arbitrary: pend)
  case Nil
  then show ?case by (simp split: option.splits)
next
  case (Cons a ws)
  show ?case
    using Cons [of None] Cons [of "Some (case pend of None \<Rightarrow> a | Some t \<Rightarrow> t @ a)"]
      Cons [of "map_option (\<lambda>t. t @ a) pend"]
    by (auto split: option.splits)
qed

lemma merge_from_ident:
  "\<forall>w\<in>set ws. 3 \<le> length w \<and> \<not> isspace (w ! 0) \<Longrightarrow> merge_from None ws = ws"
proof (induction ws)
  case Nil
  then show ?case by simp
next
  case (Cons a ws)
  then have st: "self_terminating a" by (simp add: self_terminating_def)
  show ?case using Cons st hd_nth0 [OF self_terminating_nonempty [OF st]] by simp
qed

lemma merge_from_filter:
  "merge_from pend (filter (\<lambda>w. \<not> unrecognized w) ws) = merge_from pend ws"
proof (induction ws arbitrary: pend)
  case Nil
  then show ?case by simp
next
  case (Cons a ws)
  show ?case
  proof (cases "unrecognized a")
    case True
    then have "a = []" by (simp add: unrecognized_iff)
    moreover have "map_option (\<lambda>t. t @ []) pend = pend" by (cases pend) simp_all
    ultimately show ?thesis using True Cons by (simp add: unrecognized_def)
  next
    case False
    then show ?thesis using Cons by (simp add: unrecognized_def)
  qed
qed

lemma merge_from_closed:
  "pre = [] \<or> self_terminating (last pre) \<Longrightarrow>
   merge_from None (pre @ rest) = merge_from None pre @ merge_from None rest"
proof (cases "pre = []")
  case True
  then show ?thesis by simp
next
  case False
  assume "pre = [] \<or> self_terminating (last pre)"
  then have st: "self_terminating (last pre)" using False by simp
  have p: "pre = butlast pre @ [last pre]" using False by simp
  have a: "merge_from None (pre @ rest) = merge_from None (butlast pre @ last pre # rest)"
    by (subst p) simp
  have b: "merge_from None (butlast pre @ last pre # rest) =
      merge_from None (butlast pre) @ (if isspace (last pre ! 0) then [] else [last pre]) @ merge_from None rest"
    by (rule merge_from_split [OF st])
  have c: "merge_from None pre =
      merge_from None (butlast pre) @ (if isspace (last pre ! 0) then [] else [last pre])"
    using merge_from_split [OF st, of None "butlast pre" "[]"] p by simp
  show ?thesis unfolding a b c by simp
qed

lemma merge_from_skip:
  "\<forall>f\<in>set es. unrecognized f \<Longrightarrow> merge_from None (es @ rest) = merge_from None rest"
  by (induction es) (auto simp: unrecognized_def)

section \<open>The claims about MergeCharactersIntoWords\<close>

text \<open>
  The claims are stated for vectors of fewer than \<open>2^31\<close> fragments, the sizes that
  the \<open>int32_t\<close> index \<open>n\<close> holds; the statements that hold for every size say so.
\<close>

lemmas classify_defs =
  self_terminating_def continuation_def IsSpecial_def IsGermanUmlaut_def
  IsSpanishDiacritic_def IsFrenchDiacritic_def IsPunct_def ispunct_def isspace_def byte_def

lemma concat_filter_length:
  "length (concat ws) = length (concat (filter P ws)) + length (concat (filter (\<lambda>w. \<not> P w) ws))"
  by (induction ws) auto

text \<open>
  Claim C2, with the whitespace test that the code makes. A self-terminating fragment
  \<open>w\<close> cuts the merge in two: the output for \<open>pre @ w # post\<close> is the output for
  \<open>pre\<close>, whose pending run is flushed, then \<open>w\<close> as a word of its own unless the
  first byte of \<open>w\<close> is whitespace, in which case nothing, then the output for
  \<open>post\<close>, scanned with no run pending.
\<close>

theorem self_terminating_emits:
  assumes "length (pre @ w # post) < 2147483648" and "self_terminating w"
  shows "\<exists>a b. MergeCharactersIntoWords pre = Some a \<and> MergeCharactersIntoWords post = Some b \<and>
           MergeCharactersIntoWords (pre @ w # post) =
             Some (a @ (if isspace (w ! 0) then [] else [w]) @ b)"
proof -
  have "length pre < 2147483648" "length post < 2147483648" using assms(1) by simp_all
  then show ?thesis
    using assms by (simp add: MergeCharactersIntoWords_small merge_from_split)
qed

text \<open>C2 at a comma and at a blank between two letters.\<close>

theorem self_terminating_emits_witness:
  "self_terminating '','' \<and>
   MergeCharactersIntoWords [''a'', '','', ''b''] = Some [''a'', '','', ''b''] \<and>
   MergeCharactersIntoWords [''a'', '' '', ''b''] = Some [''a'', ''b'']"
proof -
  have c: "self_terminating '',''" and s: "self_terminating '' ''"
    by (simp_all add: classify_defs)
  have a: "MergeCharactersIntoWords [''a''] = Some [''a'']"
    and b: "MergeCharactersIntoWords [''b''] = Some [''b'']"
    by (simp_all add: MergeCharactersIntoWords_small classify_defs)
  have "MergeCharactersIntoWords [''a'', '','', ''b''] = Some [''a'', '','', ''b'']"
    using self_terminating_emits [of "[''a'']" "'',''" "[''b'']"] c a b
    by (simp add: isspace_def byte_def)
  moreover have "MergeCharactersIntoWords [''a'', '' '', ''b''] = Some [''a'', ''b'']"
    using self_terminating_emits [of "[''a'']" "'' ''" "[''b'']"] s a b
    by (simp add: isspace_def byte_def)
  ultimately show ?thesis using c by simp
qed

text \<open>
  C2 as worded fails on a fragment that begins with a blank and is not pure whitespace:
  it is self-terminating and the merger emits nothing for it.
\<close>

theorem self_terminating_emits_counterexample:
  "self_terminating '' ab'' \<and> \<not> list_all isspace '' ab'' \<and>
   MergeCharactersIntoWords ['' ab''] = Some []"
  by (simp add: MergeCharactersIntoWords_small classify_defs)

text \<open>
  Claim C3, with the dropped fragments as the code drops them. The bytes of the output
  words are, in order, the bytes of the input fragments other than the self-terminating
  fragments whose first byte is whitespace; so the byte count of the output is the byte
  count of the input minus the bytes of those dropped fragments.
\<close>

theorem merge_keeps_bytes:
  assumes "length ws < 2147483648"
  shows "\<exists>out. MergeCharactersIntoWords ws = Some out \<and>
           concat out = concat (filter (\<lambda>w. \<not> (self_terminating w \<and> isspace (w ! 0))) ws) \<and>
           length (concat out) + length (concat (filter (\<lambda>w. self_terminating w \<and> isspace (w ! 0)) ws))
             = length (concat ws)"
proof -
  let ?D = "\<lambda>w. self_terminating w \<and> isspace (w ! 0)"
  have m: "MergeCharactersIntoWords ws = Some (merge_from None ws)"
    using assms by (rule MergeCharactersIntoWords_small)
  have c: "concat (merge_from None ws) = concat (filter (\<lambda>w. \<not> ?D w) ws)"
    by (simp add: merge_from_concat)
  have l: "length (concat ws) = length (concat (filter ?D ws)) + length (concat (filter (\<lambda>w. \<not> ?D w) ws))"
    by (rule concat_filter_length)
  show ?thesis using m c l by simp
qed

text \<open>C3 on five fragments, one of them a blank.\<close>

theorem merge_keeps_bytes_witness:
  "\<exists>out. MergeCharactersIntoWords [''a'', ''b'', '' '', ''cde'', ''!''] = Some out \<and>
     concat out = ''abcde!'' \<and> length (concat out) + 1 = 7"
  using merge_keeps_bytes [of "[''a'', ''b'', '' '', ''cde'', ''!'']"]
  by (simp add: classify_defs) (simp add: eval_nat_numeral)

text \<open>
  C3 as worded fails: no fragment of the input is whitespace, and three of its four
  bytes are missing from the output.
\<close>

theorem merge_keeps_bytes_counterexample:
  "MergeCharactersIntoWords [''x'', '' yz''] = Some [''x''] \<and>
   filter (list_all isspace) [''x'', '' yz''] = [] \<and>
   length (concat [''x'']) \<noteq>
     length (concat [''x'', '' yz'']) - length (concat (filter (list_all isspace) [''x'', '' yz'']))"
  by (simp add: MergeCharactersIntoWords_small classify_defs)

text \<open>
  Claim C4. A pending run starts at a continuation fragment met while no run is pending:
  at the start of the input or after a self-terminating fragment, with at most
  unrecognized fragments \<open>es\<close> in between; it holds no self-terminating fragment.
  When a self-terminating fragment \<open>w\<close> follows the run, the output has the
  in-order concatenation of the run as one word, and after it what \<open>w\<close> gives by
  its own rule. When the input ends with the run, the concatenation is the last word. A
  run of one fragment is emitted as that fragment.
\<close>

theorem pending_run_flushed:
  assumes "length (pre @ es @ run @ w # post) < 2147483648"
    and "pre = [] \<or> self_terminating (last pre)"
    and "\<forall>f\<in>set es. unrecognized f"
    and "run \<noteq> []" and "continuation (hd run)" and "\<forall>f\<in>set run. \<not> self_terminating f"
    and "self_terminating w"
  shows "\<exists>a b. MergeCharactersIntoWords pre = Some a \<and> MergeCharactersIntoWords post = Some b \<and>
           MergeCharactersIntoWords (pre @ es @ run @ w # post) =
             Some (a @ [concat run] @ (if isspace (w ! 0) then [] else [w]) @ b) \<and>
           MergeCharactersIntoWords (pre @ es @ run) = Some (a @ [concat run]) \<and>
           (\<forall>c. run = [c] \<longrightarrow> MergeCharactersIntoWords (pre @ es @ run) = Some (a @ [c]))"
proof -
  obtain c rs where run: "run = c # rs" using assms(4) by (cases run) auto
  have nc: "\<not> self_terminating c" and cc: "continuation c" and rs: "\<forall>f\<in>set rs. \<not> self_terminating f"
    using assms(5,6) run by auto
  have r: "merge_from None (run @ rest) = merge_from (Some (concat run)) rest" for rest
    using merge_from_run [OF rs, of c rest] nc cc by (simp add: run)
  have e: "merge_from None (pre @ es @ run @ rest) =
      merge_from None pre @ merge_from (Some (concat run)) rest" for rest
    using merge_from_closed [OF assms(2), of "es @ run @ rest"]
      merge_from_skip [OF assms(3), of "run @ rest"] r by simp
  have e1: "merge_from None (pre @ es @ run @ w # post) =
      merge_from None pre @ [concat run] @ (if isspace (w ! 0) then [] else [w]) @ merge_from None post"
    using e [of "w # post"] merge_from_split [OF assms(7), of "Some (concat run)" "[]" post] by simp
  have e2: "merge_from None (pre @ es @ run) = merge_from None pre @ [concat run]"
    using e [of "[]"] by simp
  have l: "length pre < 2147483648" "length post < 2147483648" "length (pre @ es @ run) < 2147483648"
    using assms(1) by simp_all
  have m1: "MergeCharactersIntoWords pre = Some (merge_from None pre)"
    and m2: "MergeCharactersIntoWords post = Some (merge_from None post)"
    and m3: "MergeCharactersIntoWords (pre @ es @ run) = Some (merge_from None (pre @ es @ run))"
    and m4: "MergeCharactersIntoWords (pre @ es @ run @ w # post) =
      Some (merge_from None (pre @ es @ run @ w # post))"
    using l assms(1) by (simp_all only: MergeCharactersIntoWords_small)
  have s: "\<forall>c. run = [c] \<longrightarrow> MergeCharactersIntoWords (pre @ es @ run) = Some (merge_from None pre @ [c])"
    using m3 e2 by auto
  show ?thesis
    unfolding m1 m2 m4 e1 using m3 e2 s by simp
qed

text \<open>C4 on a run of three fragments with an umlaut in the middle, after an empty fragment.\<close>

theorem pending_run_flushed_witness:
  "MergeCharactersIntoWords [''x'', '','', [], ''o'', [CHR 0xC3, CHR 0xA4], ''f'', ''ffnen'', ''!''] =
     Some [''x'', '','', [CHR ''o'', CHR 0xC3, CHR 0xA4, CHR ''f''], ''ffnen'', ''!''] \<and>
   MergeCharactersIntoWords [''x'', '','', [], ''o'', [CHR 0xC3, CHR 0xA4], ''f''] =
     Some [''x'', '','', [CHR ''o'', CHR 0xC3, CHR 0xA4, CHR ''f'']]"
proof -
  let ?pre = "[''x'', '','']" and ?es = "[[]] :: string list"
    and ?run = "[''o'', [CHR 0xC3, CHR 0xA4], ''f'']"
  have h1: "length (?pre @ ?es @ ?run @ ''ffnen'' # [''!'']) < 2147483648" by simp
  have h2: "?pre = [] \<or> self_terminating (last ?pre)" by (simp add: classify_defs)
  have h3: "\<forall>f\<in>set ?es. unrecognized f" by (simp add: unrecognized_iff)
  have h4: "?run \<noteq> []" by simp
  have h5: "continuation (hd ?run)" by (simp add: classify_defs)
  have h6: "\<forall>f\<in>set ?run. \<not> self_terminating f" by (simp add: classify_defs)
  have h7: "self_terminating ''ffnen''" by (simp add: classify_defs)
  have a: "MergeCharactersIntoWords ?pre = Some ?pre" and b: "MergeCharactersIntoWords [''!''] = Some [''!'']"
    by (simp_all add: MergeCharactersIntoWords_small classify_defs)
  show ?thesis
    using pending_run_flushed [OF h1 h2 h3 h4 h5 h6 h7] a b
    by (auto simp: isspace_def byte_def)
qed

text \<open>
  Claim C7. A fragment of three bytes is self-terminating, so it closes the pending run
  and is never part of one. \<open>IsSpecial\<close> is consulted for fragments of two bytes
  only, where it is the disjunction of the three diacritic tests: both conditions of
  the loop are unchanged when the three-byte case of \<open>IsSpecial\<close> is left out.
\<close>

theorem three_byte_self_terminating:
  assumes "length w = 3" and "length (pre @ w # post) < 2147483648"
  shows "self_terminating w \<and>
         (\<exists>a b. MergeCharactersIntoWords pre = Some a \<and> MergeCharactersIntoWords post = Some b \<and>
            MergeCharactersIntoWords (pre @ w # post) =
              Some (a @ (if isspace (w ! 0) then [] else [w]) @ b)) \<and>
         (\<forall>x. self_terminating x =
            (length x \<ge> 3 \<or>
             (length x = 2 \<and> \<not> (IsGermanUmlaut x \<or> IsSpanishDiacritic x \<or> IsFrenchDiacritic x)) \<or>
             (length x = 1 \<and> (IsPunct (x ! 0) \<or> isspace (x ! 0))))) \<and>
         (\<forall>x. continuation x =
            (length x = 1 \<or>
             (length x = 2 \<and> (IsGermanUmlaut x \<or> IsSpanishDiacritic x \<or> IsFrenchDiacritic x))))"
proof -
  have st: "self_terminating w" using assms(1) by (simp add: self_terminating_def)
  have l: "length pre < 2147483648" "length post < 2147483648" using assms(2) by simp_all
  have m: "\<exists>a b. MergeCharactersIntoWords pre = Some a \<and> MergeCharactersIntoWords post = Some b \<and>
            MergeCharactersIntoWords (pre @ w # post) =
              Some (a @ (if isspace (w ! 0) then [] else [w]) @ b)"
    using l assms(2) st by (simp add: MergeCharactersIntoWords_small merge_from_split)
  have sp: "length x = 2 \<Longrightarrow> IsSpecial x = (IsGermanUmlaut x \<or> IsSpanishDiacritic x \<or> IsFrenchDiacritic x)" for x
    by (simp add: IsSpecial_def)
  have s: "self_terminating x =
            (length x \<ge> 3 \<or>
             (length x = 2 \<and> \<not> (IsGermanUmlaut x \<or> IsSpanishDiacritic x \<or> IsFrenchDiacritic x)) \<or>
             (length x = 1 \<and> (IsPunct (x ! 0) \<or> isspace (x ! 0))))" for x
    unfolding self_terminating_def using sp [of x] by blast
  have c: "continuation x =
            (length x = 1 \<or>
             (length x = 2 \<and> (IsGermanUmlaut x \<or> IsSpanishDiacritic x \<or> IsFrenchDiacritic x)))" for x
    unfolding continuation_def using sp [of x] by blast
  show ?thesis using st m s c by blast
qed

text \<open>C7 at the right single quotation mark, which \<open>IsSpecial\<close> accepts.\<close>

theorem three_byte_self_terminating_witness:
  "IsSpecial [CHR 0xE2, CHR 0x80, CHR 0x99] \<and> self_terminating [CHR 0xE2, CHR 0x80, CHR 0x99] \<and>
   MergeCharactersIntoWords [''d'', [CHR 0xE2, CHR 0x80, CHR 0x99], ''i''] =
     Some [''d'', [CHR 0xE2, CHR 0x80, CHR 0x99], ''i'']"
proof -
  let ?q = "[CHR 0xE2, CHR 0x80, CHR 0x99]"
  have h1: "length ?q = 3" by simp
  have h2: "length ([''d''] @ ?q # [''i'']) < 2147483648" by simp
  have a: "MergeCharactersIntoWords [''d''] = Some [''d'']" and b: "MergeCharactersIntoWords [''i''] = Some [''i'']"
    by (simp_all add: MergeCharactersIntoWords_small classify_defs)
  have s: "IsSpecial ?q" by (simp add: classify_defs)
  show ?thesis
    using three_byte_self_terminating [OF h1 h2] a b s
    by (auto simp: isspace_def byte_def)
qed

text \<open>
  Claim C8. A result of the merger whose words all have at least three bytes is merged
  into itself.
\<close>

theorem merge_idempotent:
  assumes "length xs < 2147483648" and "MergeCharactersIntoWords xs = Some ys"
    and "\<forall>w\<in>set ys. 3 \<le> length w"
  shows "MergeCharactersIntoWords ys = Some ys"
proof -
  have ys: "ys = merge_from None xs"
    using assms(1,2) by (simp add: MergeCharactersIntoWords_small)
  have "length ys \<le> length xs" using merge_from_length [of None xs] ys by simp
  then have l: "length ys < 2147483648" using assms(1) by simp
  have "\<forall>w\<in>set ys. 3 \<le> length w \<and> \<not> isspace (w ! 0)"
    using assms(3) merge_from_word_start [of None _ xs] ys by (auto simp: word_start_def)
  then have "merge_from None ys = ys" by (rule merge_from_ident)
  then show ?thesis using l by (simp add: MergeCharactersIntoWords_small)
qed

text \<open>C8 on the result of merging five fragments.\<close>

theorem merge_idempotent_witness:
  "MergeCharactersIntoWords [''h'', ''e'', ''y'', '' '', ''you''] = Some [''hey'', ''you''] \<and>
   MergeCharactersIntoWords [''hey'', ''you''] = Some [''hey'', ''you'']"
proof -
  have h1: "length [''h'', ''e'', ''y'', '' '', ''you''] < 2147483648" by simp
  have h2: "MergeCharactersIntoWords [''h'', ''e'', ''y'', '' '', ''you''] = Some [''hey'', ''you'']"
    by (simp add: MergeCharactersIntoWords_small classify_defs)
  have h3: "\<forall>w\<in>set [''hey'', ''you'']. 3 \<le> length w" by simp
  show ?thesis using merge_idempotent [OF h1 h2 h3] h2 by simp
qed

text \<open>A fragment that meets neither condition costs one step of the scan, and no more.\<close>

lemma merge_loop_skip:
  assumes "0 \<le> i" "i < n" "n \<le> int (length words)" "unrecognized (words ! nat i)"
  shows "merge_loop words n i prev ans = merge_loop words n (i + 1) prev ans"
proof -
  have v: "vec_at words i = Some (words ! nat i)" using assms by (simp add: vec_at_def)
  show ?thesis
    using assms(2,4) v by (subst merge_loop.simps) (simp add: unrecognized_def)
qed

text \<open>
  Claim C9. For every vector, of any size, the merger returns a result: no read leaves
  the vector or a fragment, and the loop ends. No output word is an unrecognized
  fragment. A fragment is unrecognized exactly when it is empty. At an unrecognized
  fragment the loop moves to the next index and changes nothing else, and the output
  is the same as without the unrecognized fragments.
\<close>

theorem unrecognized_skipped:
  "(\<exists>out. MergeCharactersIntoWords words = Some out \<and> (\<forall>w\<in>set out. \<not> unrecognized w)) \<and>
   (unrecognized w \<longleftrightarrow> w = []) \<and>
   (0 \<le> i \<and> i < n \<and> n \<le> int (length words) \<and> unrecognized (words ! nat i) \<longrightarrow>
      merge_loop words n i prev ans = merge_loop words n (i + 1) prev ans) \<and>
   (length words < 2147483648 \<longrightarrow>
      MergeCharactersIntoWords (filter (\<lambda>w. \<not> unrecognized w) words) = MergeCharactersIntoWords words)"
proof -
  let ?ws = "take (nat (int32_of_size (length words))) words"
  have "\<forall>w\<in>set (merge_from None ?ws). \<not> unrecognized w"
    using merge_from_word_start [of None _ ?ws] by (auto simp: word_start_def unrecognized_iff)
  then have a: "\<exists>out. MergeCharactersIntoWords words = Some out \<and> (\<forall>w\<in>set out. \<not> unrecognized w)"
    by (simp add: MergeCharactersIntoWords_eq)
  have d: "MergeCharactersIntoWords (filter (\<lambda>w. \<not> unrecognized w) words) = MergeCharactersIntoWords words"
    if "length words < 2147483648"
  proof -
    have "length (filter (\<lambda>w. \<not> unrecognized w) words) \<le> length words" by simp
    then have "length (filter (\<lambda>w. \<not> unrecognized w) words) < 2147483648" using that by linarith
    then show ?thesis using that by (simp add: MergeCharactersIntoWords_small merge_from_filter)
  qed
  show ?thesis using a d unrecognized_iff [of w] merge_loop_skip [of i n words prev ans] by blast
qed

text \<open>C9 on a vector with two empty fragments, one of them inside a pending run.\<close>

theorem unrecognized_skipped_witness:
  "unrecognized '''' \<and>
   MergeCharactersIntoWords [''a'', '''', ''b'', '','', '''', ''cde''] = Some [''ab'', '','', ''cde''] \<and>
   MergeCharactersIntoWords [''a'', ''b'', '','', ''cde''] = Some [''ab'', '','', ''cde''] \<and>
   merge_loop [''a'', '''', ''b''] 3 1 0 [] = merge_loop [''a'', '''', ''b''] 3 2 0 []"
proof -
  let ?ws = "[''a'', '''', ''b'', '','', '''', ''cde'']"
  have u: "unrecognized ''''" by (simp add: unrecognized_def classify_defs)
  have f: "filter (\<lambda>w. \<not> unrecognized w) ?ws = [''a'', ''b'', '','', ''cde'']"
    by (simp add: unrecognized_iff)
  have m: "MergeCharactersIntoWords [''a'', ''b'', '','', ''cde''] = Some [''ab'', '','', ''cde'']"
    by (simp add: MergeCharactersIntoWords_small classify_defs)
  have s: "merge_loop [''a'', '''', ''b''] 3 1 0 [] = merge_loop [''a'', '''', ''b''] 3 (1 + 1) 0 []"
    using unrecognized_skipped [of "[''a'', '''', ''b'']" "''''" 1 3 0 "[]"] u by simp
  have e: "MergeCharactersIntoWords ?ws = MergeCharactersIntoWords [''a'', ''b'', '','', ''cde'']"
    using unrecognized_skipped [of ?ws "''''" 0 0 0 "[]"] f by simp
  show ?thesis using u m s e by simp
qed

text \<open>Claim C10. For every vector, of any size, no word of the output is empty.\<close>

theorem no_empty_word:
  "\<exists>out. MergeCharactersIntoWords words = Some out \<and> (\<forall>w\<in>set out. w \<noteq> [])"
proof -
  let ?ws = "take (nat (int32_of_size (length words))) words"
  have "\<forall>w\<in>set (merge_from None ?ws). w \<noteq> []"
    using merge_from_word_start [of None _ ?ws] by (auto simp: word_start_def)
  then show ?thesis by (simp add: MergeCharactersIntoWords_eq)
qed

text \<open>C10 on a vector with empty fragments before, inside and after a run.\<close>

theorem no_empty_word_witness:
  "\<exists>out. MergeCharactersIntoWords ['''', ''a'', '''', '' '', '''', [CHR 0xC3, CHR 0xA4]] = Some out \<and>
     out = [''a'', [CHR 0xC3, CHR 0xA4]] \<and> [] \<notin> set out"
proof -
  let ?ws = "['''', ''a'', '''', '' '', '''', [CHR 0xC3, CHR 0xA4]]"
  obtain out where o: "MergeCharactersIntoWords ?ws = Some out" and n: "\<forall>w\<in>set out. w \<noteq> []"
    using no_empty_word [of ?ws] by blast
  have "MergeCharactersIntoWords ?ws = Some [''a'', [CHR 0xC3, CHR 0xA4]]"
    by (simp add: MergeCharactersIntoWords_small classify_defs)
  then show ?thesis using o n by auto
qed

text \<open>
  Beyond the range of \<open>int32_t\<close> the size converts to a negative \<open>n\<close> and the loop
  does not run.
\<close>

lemma merge_stops_at_int32:
  "MergeCharactersIntoWords (replicate 2147483648 ''abc'') = Some []"
  by (simp add: MergeCharactersIntoWords_def int32_of_size_def merge_loop.simps)

section \<open>The stream reads, step by step\<close>

lemma takeWhile_all_iff: "length (takeWhile P xs) = length xs \<longleftrightarrow> list_all P xs"
proof (induction xs)
  case Nil
  then show ?case by simp
next
  case (Cons a xs)
  have "length (takeWhile P xs) \<le> length xs" by (rule length_takeWhile_le)
  then show ?case using Cons by auto
qed

lemma dropWhile_Nil_iff: "dropWhile P xs = [] \<longleftrightarrow> list_all P xs"
  by (simp add: list_all_iff)

lemma sentry_eof:
  assumes "good s" "list_all isspace (unread s)"
  shows "snd (sentry s) = False \<and> failbit (fst (sentry s)) \<and> buf (fst (sentry s)) = buf s"
  using assms by (simp add: sentry_def unread_def Let_def takeWhile_all_iff setstate_failbit_def)

lemma sentry_skip:
  assumes "good s" "\<not> list_all isspace (unread s)"
  shows "sentry s = (s\<lparr>pos := pos s + length (takeWhile isspace (unread s))\<rparr>, True)"
  using assms by (simp add: sentry_def unread_def Let_def takeWhile_all_iff setstate_failbit_def)

lemma unread_skip:
  "unread (s\<lparr>pos := pos s + length (takeWhile P (unread s))\<rparr>) = dropWhile P (unread s)"
  by (simp add: unread_def dropWhile_eq_drop add.commute)

lemma get_string_eof:
  assumes "good s" "list_all isspace (unread s)"
  shows "snd (get_string s) = [] \<and> failbit (fst (get_string s)) \<and> buf (fst (get_string s)) = buf s"
  using sentry_eof [OF assms] by (simp add: get_string_def split_beta)

lemma get_string_token:
  assumes "good s" "\<not> list_all isspace (unread s)"
  defines "r \<equiv> dropWhile isspace (unread s)"
  shows "snd (get_string s) = takeWhile (\<lambda>c. \<not> isspace c) r"
    and "\<not> failbit (fst (get_string s))"
    and "buf (fst (get_string s)) = buf s"
    and "unread (fst (get_string s)) = dropWhile (\<lambda>c. \<not> isspace c) r"
    and "eofbit (fst (get_string s)) \<longrightarrow> unread (fst (get_string s)) = []"
proof -
  let ?s1 = "s\<lparr>pos := pos s + length (takeWhile isspace (unread s))\<rparr>"
  have r: "unread ?s1 = r" unfolding r_def by (rule unread_skip)
  have d: "drop (pos ?s1) (buf ?s1) = r" using r by (simp add: unread_def)
  let ?tok = "takeWhile (\<lambda>c. \<not> isspace c) r"
  have g: "get_string s = (?s1\<lparr>pos := pos ?s1 + length ?tok, eofbit := (pos ?s1 + length ?tok = length (buf ?s1))\<rparr>, ?tok)"
    using sentry_skip [OF assms(1,2)] d by (simp add: get_string_def Let_def)
  show "snd (get_string s) = ?tok" by (simp add: g)
  show "\<not> failbit (fst (get_string s))" using assms(1) by (simp add: g good_def)
  show "buf (fst (get_string s)) = buf s" by (simp add: g)
  have "unread (fst (get_string s)) = drop (length ?tok) (drop (pos ?s1) (buf ?s1))"
    by (simp add: g unread_def add.commute)
  then show "unread (fst (get_string s)) = dropWhile (\<lambda>c. \<not> isspace c) r"
    by (simp only: d dropWhile_eq_drop)
  show "eofbit (fst (get_string s)) \<longrightarrow> unread (fst (get_string s)) = []"
    by (simp add: g unread_def)
qed

lemma token_has_nonspace:
  assumes "r \<noteq> []" "\<not> isspace (hd r)"
  shows "find_first_not_of (takeWhile (\<lambda>c. \<not> isspace c) r) (CHR '' '') \<noteq> None"
proof -
  obtain c cs where r: "r = c # cs" using assms(1) by (cases r) auto
  then have "\<not> isspace c" using assms(2) by simp
  moreover from this have "c \<noteq> CHR '' ''" by (auto simp: isspace_def byte_def)
  ultimately show ?thesis by (simp add: r)
qed

lemma dropWhile_hd: "dropWhile P xs \<noteq> [] \<Longrightarrow> \<not> P (hd (dropWhile P xs))"
  by (metis hd_dropWhile)

lemma RemainderIsOnlySpaces_snd:
  assumes "\<not> failbit s" "eofbit s \<longrightarrow> unread s = []"
  shows "snd (RemainderIsOnlySpaces s) = list_all isspace (unread s)"
proof (cases "eofbit s")
  case True
  then show ?thesis using assms by (simp add: RemainderIsOnlySpaces_def tellg_def good_def)
next
  case False
  then have g: "good s" using assms(1) by (simp add: good_def)
  have t: "tellg s = (s, Some (pos s))" using g by (simp add: tellg_def)
  show ?thesis
  proof (cases "list_all isspace (unread s)")
    case True
    then show ?thesis
      using get_string_eof [OF g True] t by (simp add: RemainderIsOnlySpaces_def split_beta)
  next
    case ns: False
    let ?r = "dropWhile isspace (unread s)"
    have ne: "?r \<noteq> []" using ns by (simp add: list_all_iff)
    have "find_first_not_of (snd (get_string s)) (CHR '' '') \<noteq> None"
      using get_string_token(1) [OF g ns] token_has_nonspace [OF ne dropWhile_hd [OF ne]] by simp
    then show ?thesis using t ns by (simp add: RemainderIsOnlySpaces_def split_beta)
  qed
qed

lemma RemainderIsOnlySpaces_True:
  "snd (RemainderIsOnlySpaces s) \<Longrightarrow> \<not> fail (fst (RemainderIsOnlySpaces s))"
  by (auto simp: RemainderIsOnlySpaces_def split_beta Let_def clear_def fail_def split: if_splits)

lemma RemainderIsOnlySpaces_buf: "buf (fst (RemainderIsOnlySpaces s)) = buf s"
proof (cases "good s")
  case True
  have "buf (fst (get_string s)) = buf s"
    using get_string_eof [OF True] get_string_token(3) [OF True] by blast
  then show ?thesis
    using True by (simp add: RemainderIsOnlySpaces_def tellg_def split_beta clear_def)
next
  case False
  then show ?thesis
    by (simp add: RemainderIsOnlySpaces_def tellg_def split_beta clear_def setstate_failbit_def)
qed

lemma outcome_ParseOnFail:
  "outcome (ParseOnFail T s x) = lookup_token T (dropWhile isspace (buf s))"
proof -
  let ?s1 = "seekg (clear s) 0"
  have s1: "good ?s1" "unread ?s1 = buf s"
    by (simp_all add: seekg_def clear_def good_def fail_def unread_def Let_def)
  let ?r = "dropWhile isspace (buf s)"
  show ?thesis
  proof (cases "list_all isspace (buf s)")
    case True
    then have "fail (fst (get_string ?s1))"
      using get_string_eof [OF s1(1)] s1(2) by (simp add: fail_def)
    moreover have "?r = []" using True by (simp add: list_all_iff)
    ultimately show ?thesis
      by (simp add: ParseOnFail_def outcome_def lookup_token_def split_beta Let_def
          setstate_failbit_def fail_def)
  next
    case False
    then have ns: "\<not> list_all isspace (unread ?s1)" using s1(2) by simp
    have ne: "?r \<noteq> []" using False by (simp add: list_all_iff)
    let ?s2 = "fst (get_string ?s1)"
    note gs = get_string_token [OF s1(1) ns, unfolded s1(2)]
    have nf: "\<not> fail ?s2" using gs(2) by (simp add: fail_def)
    have only: "snd (RemainderIsOnlySpaces ?s2) = list_all isspace (dropWhile (\<lambda>c. \<not> isspace c) ?r)"
      using RemainderIsOnlySpaces_snd [OF gs(2) gs(5)] gs(4) by simp
    show ?thesis
    proof (cases "snd (RemainderIsOnlySpaces ?s2)")
      case True
      have nf3: "\<not> fail (fst (RemainderIsOnlySpaces ?s2))"
        by (rule RemainderIsOnlySpaces_True [OF True])
      show ?thesis
        using True nf nf3 only ne gs(1)
        by (simp add: ParseOnFail_def outcome_def lookup_token_def split_beta Let_def
            setstate_failbit_def fail_def split: option.splits)
    next
      case nt: False
      show ?thesis
        using nt nf only ne
        by (simp add: ParseOnFail_def outcome_def lookup_token_def split_beta Let_def
            setstate_failbit_def fail_def)
    qed
  qed
qed

section \<open>ConvertStringToReal computes \<open>parse_real\<close>\<close>

lemma get_real_eof:
  assumes "good s" "list_all isspace (unread s)"
  shows "fail (fst (get_real T s)) \<and> buf (fst (get_real T s)) = buf s"
  using sentry_eof [OF assms] by (simp add: get_real_def split_beta fail_def)

lemma get_real_token:
  assumes "good s" "\<not> list_all isspace (unread s)"
  defines "r \<equiv> dropWhile isspace (unread s)"
  shows "snd (get_real T s) = snd (num_get T r)"
    and "fail (fst (get_real T s)) \<longleftrightarrow> snd (num_get T r) = None"
    and "buf (fst (get_real T s)) = buf s"
    and "unread (fst (get_real T s)) = drop (fst (num_get T r)) r"
    and "eofbit (fst (get_real T s)) \<longrightarrow> unread (fst (get_real T s)) = []"
proof -
  let ?s1 = "s\<lparr>pos := pos s + length (takeWhile isspace (unread s))\<rparr>"
  have r: "unread ?s1 = r" unfolding r_def by (rule unread_skip)
  have d: "drop (pos ?s1) (buf ?s1) = r" using r by (simp add: unread_def)
  let ?k = "min (fst (num_get T r)) (length r)"
  have g: "get_real T s =
      (?s1\<lparr>pos := pos ?s1 + ?k, eofbit := (?k = length r), failbit := (snd (num_get T r) = None)\<rparr>,
       snd (num_get T r))"
    using sentry_skip [OF assms(1,2)] d by (simp add: get_real_def Let_def split_beta)
  show "snd (get_real T s) = snd (num_get T r)" by (simp add: g)
  show "fail (fst (get_real T s)) \<longleftrightarrow> snd (num_get T r) = None" by (simp add: g fail_def)
  show "buf (fst (get_real T s)) = buf s" by (simp add: g)
  have "unread (fst (get_real T s)) = drop ?k (drop (pos ?s1) (buf ?s1))"
    by (simp add: g unread_def add.commute)
  then have e: "unread (fst (get_real T s)) = drop ?k r" by (simp only: d)
  show "unread (fst (get_real T s)) = drop (fst (num_get T r)) r"
    unfolding e by (cases "fst (num_get T r) \<le> length r") (simp_all add: min_def)
  show "eofbit (fst (get_real T s)) \<longrightarrow> unread (fst (get_real T s)) = []"
    unfolding e by (simp add: g)
qed

lemma ConvertStringToReal_eq: "ConvertStringToReal T str = parse_real T str"
proof -
  let ?s0 = "istringstream str"
  have s0: "good ?s0" "unread ?s0 = str" "buf ?s0 = str"
    by (simp_all add: istringstream_def good_def unread_def)
  have c: "ConvertStringToReal T str = outcome (NumberIstream_get T ?s0)"
    by (simp add: ConvertStringToReal_def outcome_def split_beta)
  let ?r = "dropWhile isspace str"
  let ?s1 = "fst (get_real T ?s0)"
  show ?thesis
  proof (cases "list_all isspace str")
    case True
    have f: "fail ?s1" "buf ?s1 = str"
      using get_real_eof [OF s0(1), of T] True s0 by simp_all
    have "NumberIstream_get T ?s0 = ParseOnFail T ?s1 (snd (get_real T ?s0))"
      using s0(1) f(1) by (simp add: NumberIstream_get_def split_beta)
    then have "ConvertStringToReal T str = lookup_token T ?r"
      using c f(2) by (simp add: outcome_ParseOnFail)
    moreover have "?r = []" using True by (simp add: list_all_iff)
    ultimately show ?thesis by (simp add: parse_real_def lookup_token_def)
  next
    case False
    then have ns: "\<not> list_all isspace (unread ?s0)" using s0(2) by simp
    have ne: "?r \<noteq> []" using False by (simp add: list_all_iff)
    note gr = get_real_token [OF s0(1) ns, of T, unfolded s0(2) s0(3)]
    show ?thesis
    proof (cases "snd (num_get T ?r)")
      case None
      then have f: "fail ?s1" using gr(2) by simp
      have "NumberIstream_get T ?s0 = ParseOnFail T ?s1 (snd (get_real T ?s0))"
        using s0(1) f by (simp add: NumberIstream_get_def split_beta)
      then have "ConvertStringToReal T str = lookup_token T ?r"
        using c gr(3) by (simp add: outcome_ParseOnFail)
      then show ?thesis using ne None by (auto simp: parse_real_def split_beta Let_def)
    next
      case (Some v)
      then have nf: "\<not> fail ?s1" using gr(2) by simp
      then have nfb: "\<not> failbit ?s1" by (simp add: fail_def)
      let ?R = "RemainderIsOnlySpaces ?s1"
      have only: "snd ?R = list_all isspace (drop (fst (num_get T ?r)) ?r)"
        using RemainderIsOnlySpaces_snd [OF nfb gr(5)] gr(4) by simp
      show ?thesis
      proof (cases "snd ?R")
        case True
        have "NumberIstream_get T ?s0 = (fst ?R, snd (get_real T ?s0))"
          using s0(1) nf True by (simp add: NumberIstream_get_def split_beta)
        then have "ConvertStringToReal T str = Some v"
          using c RemainderIsOnlySpaces_True [OF True] gr(1) Some by (simp add: outcome_def)
        then show ?thesis
          using ne Some True only by (auto simp: parse_real_def split_beta Let_def)
      next
        case nt: False
        have "NumberIstream_get T ?s0 = ParseOnFail T (fst ?R) (snd (get_real T ?s0))"
          using s0(1) nf nt by (simp add: NumberIstream_get_def split_beta)
        then have "ConvertStringToReal T str = lookup_token T ?r"
          using c gr(3) by (simp add: outcome_ParseOnFail RemainderIsOnlySpaces_buf)
        then show ?thesis
          using ne nt only by (auto simp: parse_real_def split_beta Let_def)
      qed
    qed
  qed
qed

section \<open>The claims about ConvertStringToReal\<close>

text \<open>
  A token is a non-empty text without whitespace. The claims speak of texts of the form
  \<open>ws1 @ t @ r\<close>, with \<open>ws1\<close> whitespace and \<open>t\<close> a token.
\<close>

lemma token_shape:
  assumes "list_all isspace ws1" "t \<noteq> []" "list_all (\<lambda>c. \<not> isspace c) t"
  shows "dropWhile isspace (ws1 @ t @ r) = t @ r"
    and "takeWhile (\<lambda>c. \<not> isspace c) (t @ r) = t @ takeWhile (\<lambda>c. \<not> isspace c) r"
    and "dropWhile (\<lambda>c. \<not> isspace c) (t @ r) = dropWhile (\<lambda>c. \<not> isspace c) r"
proof -
  obtain c cs where t: "t = c # cs" using assms(2) by (cases t) auto
  then have c: "\<not> isspace c" using assms(3) by simp
  have "dropWhile isspace (ws1 @ t @ r) = dropWhile isspace (t @ r)"
    using assms(1) by (simp add: list_all_iff)
  then show "dropWhile isspace (ws1 @ t @ r) = t @ r" using c by (simp add: t)
  show "takeWhile (\<lambda>c. \<not> isspace c) (t @ r) = t @ takeWhile (\<lambda>c. \<not> isspace c) r"
    using assms(3) by (simp add: list_all_iff)
  show "dropWhile (\<lambda>c. \<not> isspace c) (t @ r) = dropWhile (\<lambda>c. \<not> isspace c) r"
    using assms(3) by (simp add: list_all_iff)
qed

lemma spaces_shape:
  assumes "list_all isspace ws"
  shows "takeWhile (\<lambda>c. \<not> isspace c) ws = []" and "dropWhile (\<lambda>c. \<not> isspace c) ws = ws"
  using assms by (cases ws; simp)+

lemma lookup_single_token:
  assumes "list_all isspace ws1" "t \<noteq> []" "list_all (\<lambda>c. \<not> isspace c) t" "list_all isspace ws2"
  shows "lookup_token T (t @ ws2) = map_of (inf_nan_map T) (map toupper t)"
  using assms token_shape(2,3) [OF assms(1,2,3), of ws2] spaces_shape [OF assms(4)]
  by (simp add: lookup_token_def)

lemma lookup_second_token:
  assumes "t \<noteq> []" "list_all (\<lambda>c. \<not> isspace c) t" "r \<noteq> []" "isspace (hd r)" "\<not> list_all isspace r"
  shows "lookup_token T (t @ r) = None"
proof -
  have "dropWhile (\<lambda>c. \<not> isspace c) (t @ r) = dropWhile (\<lambda>c. \<not> isspace c) r"
    using assms(2) by (simp add: list_all_iff)
  also have "\<dots> = r" using assms(3,4) by (cases r) simp_all
  finally show ?thesis using assms(5) by (simp add: lookup_token_def)
qed

lemma not_spaces_drop:
  assumes "t \<noteq> []" "list_all (\<lambda>c. \<not> isspace c) t" "k < length t"
  shows "\<not> list_all isspace (drop k (t @ r))"
proof -
  have "t ! k \<in> set (drop k t)" using assms(3) by (metis Cons_nth_drop_Suc list.set_intros(1))
  moreover have "\<not> isspace (t ! k)" using assms(2,3) by (simp add: list_all_length)
  ultimately show ?thesis using assms(3) by (auto simp: list_all_iff)
qed

lemma parse_real_lookup:
  assumes "list_all isspace ws1" "t \<noteq> []" "list_all (\<lambda>c. \<not> isspace c) t"
    and "snd (num_get T (t @ r)) = None \<or> \<not> list_all isspace (drop (fst (num_get T (t @ r))) (t @ r))"
  shows "parse_real T (ws1 @ t @ r) = lookup_token T (t @ r)"
proof -
  have d: "dropWhile isspace (ws1 @ t @ r) = t @ r" by (rule token_shape(1) [OF assms(1,2,3)])
  have ne: "t @ r \<noteq> []" using assms(2) by simp
  show ?thesis
    unfolding parse_real_def d Let_def split_beta using ne assms(4) by auto
qed

text \<open>
  Claim C5. Let \<open>t\<close> be a token after leading whitespace \<open>ws1\<close>. When the
  conversion for \<open>T\<close> reads the whole of \<open>t\<close> and yields \<open>v\<close>, and only
  whitespace \<open>ws2\<close> follows, ConvertStringToReal returns true with \<open>v\<close>. It returns
  false for the empty string. It returns false when, after whitespace, more non-space
  content follows the token (the conversion for \<open>T\<close> does not read beyond the token).
  It returns false as well when the conversion reads only a part of the token, as for a
  number with letters glued to it, and the token is not one of the spellings of the
  table.
\<close>

theorem convert_single_token:
  assumes "list_all isspace ws1" and "t \<noteq> []" and "list_all (\<lambda>c. \<not> isspace c) t"
  shows "(list_all isspace ws2 \<and> num_get T (t @ ws2) = (length t, Some v) \<longrightarrow>
            ConvertStringToReal T (ws1 @ t @ ws2) = Some v) \<and>
         ConvertStringToReal T [] = None \<and>
         (r \<noteq> [] \<and> isspace (hd r) \<and> \<not> list_all isspace r \<and> fst (num_get T (t @ r)) \<le> length t \<longrightarrow>
            ConvertStringToReal T (ws1 @ t @ r) = None) \<and>
         (list_all isspace ws2 \<and> fst (num_get T (t @ ws2)) < length t \<and>
          map_of (inf_nan_map T) (map toupper t) = None \<longrightarrow>
            ConvertStringToReal T (ws1 @ t @ ws2) = None)"
proof -
  have a: "ConvertStringToReal T (ws1 @ t @ ws2) = Some v"
    if "list_all isspace ws2" "num_get T (t @ ws2) = (length t, Some v)"
    using that token_shape(1) [OF assms, of ws2] assms(2)
    by (simp add: ConvertStringToReal_eq parse_real_def)
  have b: "ConvertStringToReal T [] = None"
    by (simp add: ConvertStringToReal_eq parse_real_def)
  have c: "ConvertStringToReal T (ws1 @ t @ r) = None"
    if r: "r \<noteq> []" "isspace (hd r)" "\<not> list_all isspace r" and k: "fst (num_get T (t @ r)) \<le> length t"
  proof -
    have "drop (fst (num_get T (t @ r))) (t @ r) = drop (fst (num_get T (t @ r))) t @ r"
      using k by simp
    then have "\<not> list_all isspace (drop (fst (num_get T (t @ r))) (t @ r))"
      using r(3) by simp
    then have "parse_real T (ws1 @ t @ r) = lookup_token T (t @ r)"
      using parse_real_lookup [OF assms, of T r] by blast
    then show ?thesis
      using lookup_second_token [OF assms(2,3) r] by (simp add: ConvertStringToReal_eq)
  qed
  have d: "ConvertStringToReal T (ws1 @ t @ ws2) = None"
    if w: "list_all isspace ws2" and k: "fst (num_get T (t @ ws2)) < length t"
      and n: "map_of (inf_nan_map T) (map toupper t) = None"
  proof -
    have "\<not> list_all isspace (drop (fst (num_get T (t @ ws2))) (t @ ws2))"
      by (rule not_spaces_drop [OF assms(2,3) k])
    then have "parse_real T (ws1 @ t @ ws2) = lookup_token T (t @ ws2)"
      using parse_real_lookup [OF assms, of T ws2] by blast
    then show ?thesis
      using lookup_single_token [OF assms w, of T] n by (simp add: ConvertStringToReal_eq)
  qed
  show ?thesis using a b c d by blast
qed

text \<open>The table, by the value of its entries.\<close>

lemma inf_nan_lookup:
  "map_of (inf_nan_map T) u =
     (if u \<in> {''INF'', ''+INF'', ''INFINITY'', ''+INFINITY'', ''1.#INF''} then Some (infinity T)
      else if u \<in> {''-INF'', ''-INFINITY'', ''-1.#INF''} then Some (negate T (infinity T))
      else if u \<in> {''NAN'', ''+NAN'', ''1.#QNAN''} then Some (quiet_NaN T)
      else if u \<in> {''-NAN'', ''-1.#QNAN''} then Some (negate T (quiet_NaN T))
      else None)"
  by (simp add: inf_nan_map_def)

text \<open>
  Claim C6. Let the input be one token \<open>t\<close> between whitespace, and let the standard
  conversion fail on it: it yields no value, or it leaves part of the token unread.
  Then ConvertStringToReal returns what the table holds for the upper-cased token: it
  succeeds exactly for the thirteen spellings, with plus or minus infinity for the
  \<open>INF\<close> spellings by their sign and NaN or negated NaN for the \<open>NAN\<close> spellings.
\<close>

theorem special_spellings:
  assumes "list_all isspace ws1" and "t \<noteq> []" and "list_all (\<lambda>c. \<not> isspace c) t"
    and "list_all isspace ws2"
    and "snd (num_get T (t @ ws2)) = None \<or> fst (num_get T (t @ ws2)) < length t"
  shows "ConvertStringToReal T (ws1 @ t @ ws2) = map_of (inf_nan_map T) (map toupper t) \<and>
         (ConvertStringToReal T (ws1 @ t @ ws2) \<noteq> None \<longleftrightarrow>
            map toupper t \<in> {''INF'', ''+INF'', ''-INF'', ''INFINITY'', ''+INFINITY'', ''-INFINITY'',
              ''NAN'', ''+NAN'', ''-NAN'', ''1.#INF'', ''-1.#INF'', ''1.#QNAN'', ''-1.#QNAN''}) \<and>
         (map toupper t \<in> {''INF'', ''+INF'', ''INFINITY'', ''+INFINITY'', ''1.#INF''} \<longrightarrow>
            ConvertStringToReal T (ws1 @ t @ ws2) = Some (infinity T)) \<and>
         (map toupper t \<in> {''-INF'', ''-INFINITY'', ''-1.#INF''} \<longrightarrow>
            ConvertStringToReal T (ws1 @ t @ ws2) = Some (negate T (infinity T))) \<and>
         (map toupper t \<in> {''NAN'', ''+NAN'', ''1.#QNAN''} \<longrightarrow>
            ConvertStringToReal T (ws1 @ t @ ws2) = Some (quiet_NaN T)) \<and>
         (map toupper t \<in> {''-NAN'', ''-1.#QNAN''} \<longrightarrow>
            ConvertStringToReal T (ws1 @ t @ ws2) = Some (negate T (quiet_NaN T)))"
proof -
  have "snd (num_get T (t @ ws2)) = None \<or>
        \<not> list_all isspace (drop (fst (num_get T (t @ ws2))) (t @ ws2))"
    using assms(5) not_spaces_drop [OF assms(2,3), of "fst (num_get T (t @ ws2))" ws2] by auto
  then have "parse_real T (ws1 @ t @ ws2) = lookup_token T (t @ ws2)"
    by (rule parse_real_lookup [OF assms(1,2,3)])
  then have e: "ConvertStringToReal T (ws1 @ t @ ws2) = map_of (inf_nan_map T) (map toupper t)"
    using lookup_single_token [OF assms(1,2,3,4), of T] by (simp add: ConvertStringToReal_eq)
  show ?thesis unfolding e inf_nan_lookup by simp
qed

text \<open>The claims at the decimal instance.\<close>

lemmas decimal_defs =
  decimal_type_def decimal_num_get_def decimal_negate_def take_sign_def isdigit_def
  digits_value_def isspace_def toupper_def byte_def char_of_def bit_iff_odd

text \<open>C5 at a number between blanks, the empty string, and a number followed by more, apart or glued.\<close>

theorem convert_single_token_witness:
  "ConvertStringToReal decimal_type ''  3.14 '' = Some (Num 314 (-2)) \<and>
   ConvertStringToReal decimal_type [] = None \<and>
   ConvertStringToReal decimal_type ''  3.14 xyz'' = None \<and>
   ConvertStringToReal decimal_type ''1 2'' = None \<and>
   ConvertStringToReal decimal_type ''  3.14xyz '' = None"
proof -
  have w: "list_all isspace ''  ''" "list_all isspace '' ''" "list_all isspace []"
    by (simp_all add: isspace_def byte_def)
  have t: "''3.14'' \<noteq> []" "list_all (\<lambda>c. \<not> isspace c) ''3.14''"
    "''1'' \<noteq> []" "list_all (\<lambda>c. \<not> isspace c) ''1''"
    "''3.14xyz'' \<noteq> []" "list_all (\<lambda>c. \<not> isspace c) ''3.14xyz''"
    by (simp_all add: isspace_def byte_def)
  have n1: "num_get decimal_type (''3.14'' @ '' '') = (length ''3.14'', Some (Num 314 (-2)))"
    by (simp add: decimal_defs)
  have n2: "fst (num_get decimal_type (''3.14'' @ '' xyz'')) \<le> length ''3.14''"
    by (simp add: decimal_defs)
  have n3: "fst (num_get decimal_type (''1'' @ '' 2'')) \<le> length ''1''"
    by (simp add: decimal_defs)
  have n4: "fst (num_get decimal_type (''3.14xyz'' @ '' '')) < length ''3.14xyz''"
    by (simp add: decimal_defs)
  have u: "map toupper ''3.14xyz'' = ''3.14XYZ''"
    by (simp add: toupper_def byte_def char_of_def bit_iff_odd)
  have m: "map_of (inf_nan_map decimal_type) (map toupper ''3.14xyz'') = None"
    unfolding u by (simp add: inf_nan_map_def)
  have r: "'' xyz'' \<noteq> [] \<and> isspace (hd '' xyz'') \<and> \<not> list_all isspace '' xyz''"
    "'' 2'' \<noteq> [] \<and> isspace (hd '' 2'') \<and> \<not> list_all isspace '' 2''"
    by (simp_all add: isspace_def byte_def)
  show ?thesis
    using convert_single_token [OF w(1) t(1,2), of "'' ''" decimal_type "Num 314 (-2)" "'' xyz''"]
      convert_single_token [OF w(3) t(3,4), of "[]" decimal_type "Num 1 0" "'' 2''"]
      convert_single_token [OF w(1) t(5,6), of "'' ''" decimal_type "Num 0 0" "[]"]
      w n1 n2 n3 n4 m r
    by simp
qed

text \<open>
  C6 at spellings in mixed case, at the legacy spelling of infinity, whose first two
  characters the standard conversion reads as a number, and at a token the table lacks.
\<close>

theorem special_spellings_witness:
  "ConvertStringToReal decimal_type '' -Infinity  '' = Some NInf \<and>
   ConvertStringToReal decimal_type ''inf'' = Some PInf \<and>
   ConvertStringToReal decimal_type ''NaN'' = Some (QNaN False) \<and>
   ConvertStringToReal decimal_type ''1.#inf'' = Some PInf \<and>
   ConvertStringToReal decimal_type ''infty'' = None"
proof -
  have w: "list_all isspace '' ''" "list_all isspace ''  ''" "list_all isspace []"
    by (simp_all add: isspace_def byte_def)
  have t: "''-Infinity'' \<noteq> [] \<and> list_all (\<lambda>c. \<not> isspace c) ''-Infinity''"
    "''inf'' \<noteq> [] \<and> list_all (\<lambda>c. \<not> isspace c) ''inf''"
    "''NaN'' \<noteq> [] \<and> list_all (\<lambda>c. \<not> isspace c) ''NaN''"
    "''1.#inf'' \<noteq> [] \<and> list_all (\<lambda>c. \<not> isspace c) ''1.#inf''"
    "''infty'' \<noteq> [] \<and> list_all (\<lambda>c. \<not> isspace c) ''infty''"
    by (simp_all add: isspace_def byte_def)
  have n: "snd (num_get decimal_type (''-Infinity'' @ ''  '')) = None"
    "snd (num_get decimal_type (''inf'' @ [])) = None"
    "snd (num_get decimal_type (''NaN'' @ [])) = None"
    "fst (num_get decimal_type (''1.#inf'' @ [])) < length ''1.#inf''"
    "snd (num_get decimal_type (''infty'' @ [])) = None"
    by (simp_all add: decimal_defs)
  have u: "map toupper ''-Infinity'' = ''-INFINITY''" "map toupper ''inf'' = ''INF''"
    "map toupper ''NaN'' = ''NAN''" "map toupper ''1.#inf'' = ''1.#INF''"
    "map toupper ''infty'' = ''INFTY''"
    by (simp_all add: toupper_def byte_def char_of_def bit_iff_odd)
  have m: "map_of (inf_nan_map decimal_type) ''-INFINITY'' = Some NInf"
    "map_of (inf_nan_map decimal_type) ''INF'' = Some PInf"
    "map_of (inf_nan_map decimal_type) ''NAN'' = Some (QNaN False)"
    "map_of (inf_nan_map decimal_type) ''1.#INF'' = Some PInf"
    "map_of (inf_nan_map decimal_type) ''INFTY'' = None"
    by (simp_all add: inf_nan_map_def decimal_type_def decimal_negate_def)
  have a: "ConvertStringToReal decimal_type ('' '' @ ''-Infinity'' @ ''  '') = Some NInf"
    using special_spellings [OF w(1) conjunct1 [OF t(1)] conjunct2 [OF t(1)] w(2) disjI1 [OF n(1)]]
    by (simp only: u m)
  have b: "ConvertStringToReal decimal_type ([] @ ''inf'' @ []) = Some PInf"
    using special_spellings [OF w(3) conjunct1 [OF t(2)] conjunct2 [OF t(2)] w(3) disjI1 [OF n(2)]]
    by (simp only: u m)
  have c: "ConvertStringToReal decimal_type ([] @ ''NaN'' @ []) = Some (QNaN False)"
    using special_spellings [OF w(3) conjunct1 [OF t(3)] conjunct2 [OF t(3)] w(3) disjI1 [OF n(3)]]
    by (simp only: u m)
  have d: "ConvertStringToReal decimal_type ([] @ ''1.#inf'' @ []) = Some PInf"
    using special_spellings [OF w(3) conjunct1 [OF t(4)] conjunct2 [OF t(4)] w(3) disjI2 [OF n(4)]]
    by (simp only: u m)
  have e: "ConvertStringToReal decimal_type ([] @ ''infty'' @ []) = None"
    using special_spellings [OF w(3) conjunct1 [OF t(5)] conjunct2 [OF t(5)] w(3) disjI1 [OF n(5)]]
    by (simp only: u m)
  show ?thesis using a b c d e by simp
qed

section \<open>The claim about SplitStringToFloats\<close>

lemma floats_loop_length:
  "floats_loop T split i out = (ok, out') \<Longrightarrow> length out' = length out"
proof (induction T split i out rule: floats_loop.induct)
  case (1 T split i out)
  show ?case
  proof (cases "i < length split")
    case False
    then show ?thesis using "1.prems" by (simp add: floats_loop.simps)
  next
    case True
    show ?thesis
    proof (cases "ConvertStringToReal T (split ! i)")
      case None
      then show ?thesis using True "1.prems" by (simp add: floats_loop.simps)
    next
      case (Some f)
      have rec: "floats_loop T split (i + 1) (out[i := f]) = (ok, out')"
        using True Some "1.prems" by (simp add: floats_loop.simps)
      show ?thesis using "1.IH" [OF True Some rec] by simp
    qed
  qed
qed

lemma floats_loop_below:
  "floats_loop T split i out = (ok, out') \<Longrightarrow> j < i \<Longrightarrow> out' ! j = out ! j"
proof (induction T split i out rule: floats_loop.induct)
  case (1 T split i out)
  show ?case
  proof (cases "i < length split")
    case False
    then show ?thesis using "1.prems" by (simp add: floats_loop.simps)
  next
    case True
    show ?thesis
    proof (cases "ConvertStringToReal T (split ! i)")
      case None
      then show ?thesis using True "1.prems" by (simp add: floats_loop.simps)
    next
      case (Some f)
      have rec: "floats_loop T split (i + 1) (out[i := f]) = (ok, out')"
        using True Some "1.prems" by (simp add: floats_loop.simps)
      have "out' ! j = out[i := f] ! j"
        using "1.IH" [OF True Some rec] "1.prems"(2) by simp
      then show ?thesis using "1.prems"(2) by simp
    qed
  qed
qed

lemma floats_loop_failure:
  "floats_loop T split i out = (False, out') \<Longrightarrow> length out = length split \<Longrightarrow>
   \<exists>m. i \<le> m \<and> m < length split \<and> ConvertStringToReal T (split ! m) = None \<and>
       (\<forall>j. i \<le> j \<and> j < m \<longrightarrow> ConvertStringToReal T (split ! j) = Some (out' ! j)) \<and>
       (\<forall>j. m \<le> j \<and> j < length split \<longrightarrow> out' ! j = out ! j)"
proof (induction T split i out rule: floats_loop.induct)
  case (1 T split i out)
  show ?case
  proof (cases "i < length split")
    case False
    then show ?thesis using "1.prems" by (simp add: floats_loop.simps)
  next
    case True
    show ?thesis
    proof (cases "ConvertStringToReal T (split ! i)")
      case None
      then have "out' = out" using True "1.prems"(1) by (simp add: floats_loop.simps)
      then have "i \<le> i \<and> i < length split \<and> ConvertStringToReal T (split ! i) = None \<and>
          (\<forall>j. i \<le> j \<and> j < i \<longrightarrow> ConvertStringToReal T (split ! j) = Some (out' ! j)) \<and>
          (\<forall>j. i \<le> j \<and> j < length split \<longrightarrow> out' ! j = out ! j)"
        using True None by auto
      then show ?thesis by (rule exI)
    next
      case (Some f)
      have rec: "floats_loop T split (i + 1) (out[i := f]) = (False, out')"
        using True Some "1.prems"(1) by (simp add: floats_loop.simps)
      have len: "length (out[i := f]) = length split" using "1.prems"(2) by simp
      obtain m where m: "i + 1 \<le> m" "m < length split" "ConvertStringToReal T (split ! m) = None"
        and before: "\<forall>j. i + 1 \<le> j \<and> j < m \<longrightarrow> ConvertStringToReal T (split ! j) = Some (out' ! j)"
        and after: "\<forall>j. m \<le> j \<and> j < length split \<longrightarrow> out' ! j = out[i := f] ! j"
        using "1.IH" [OF True Some rec len] by blast
      have "out' ! i = out[i := f] ! i"
        by (rule floats_loop_below [OF rec]) simp
      then have at_i: "out' ! i = f" using True "1.prems"(2) by simp
      have p: "\<forall>j. i \<le> j \<and> j < m \<longrightarrow> ConvertStringToReal T (split ! j) = Some (out' ! j)"
      proof (intro allI impI)
        fix j assume j: "i \<le> j \<and> j < m"
        show "ConvertStringToReal T (split ! j) = Some (out' ! j)"
        proof (cases "j = i")
          case True
          then show ?thesis using Some at_i by simp
        next
          case False
          then have "i + 1 \<le> j \<and> j < m" using j by simp
          then show ?thesis using before by blast
        qed
      qed
      have q: "\<forall>j. m \<le> j \<and> j < length split \<longrightarrow> out' ! j = out ! j"
      proof (intro allI impI)
        fix j assume j: "m \<le> j \<and> j < length split"
        then have "out' ! j = out[i := f] ! j" using after by blast
        moreover have "j \<noteq> i" using j m(1) by simp
        ultimately show "out' ! j = out ! j" by simp
      qed
      have "i \<le> m" using m(1) by simp
      then have "i \<le> m \<and> m < length split \<and> ConvertStringToReal T (split ! m) = None \<and>
          (\<forall>j. i \<le> j \<and> j < m \<longrightarrow> ConvertStringToReal T (split ! j) = Some (out' ! j)) \<and>
          (\<forall>j. m \<le> j \<and> j < length split \<longrightarrow> out' ! j = out ! j)"
        using m(2,3) p q by blast
      then show ?thesis by (rule exI)
    qed
  qed
qed

text \<open>
  Claim C1, with the output the code leaves. When SplitStringToFloats returns false,
  some piece fails to convert. The output vector is not cleared: it has one element per
  piece; the elements before the first failing piece hold the values of their pieces;
  the elements from the failing piece on are those of the resized vector, so no piece
  after the failing one is stored.
\<close>

theorem split_floats_failure:
  assumes "SplitStringToFloats T full delim omit_empty out0 = (False, out)"
  shows "length out = length (SplitStringToVector full delim omit_empty) \<and>
         (\<exists>m. m < length (SplitStringToVector full delim omit_empty) \<and>
            ConvertStringToReal T (SplitStringToVector full delim omit_empty ! m) = None \<and>
            (\<forall>j. j < m \<longrightarrow>
               ConvertStringToReal T (SplitStringToVector full delim omit_empty ! j) = Some (out ! j)) \<and>
            (\<forall>j. m \<le> j \<and> j < length (SplitStringToVector full delim omit_empty) \<longrightarrow>
               out ! j =
                 resize out0 (length (SplitStringToVector full delim omit_empty)) (zero_value T) ! j))"
proof -
  define split where "split = SplitStringToVector full delim omit_empty"
  define out1 where "out1 = resize out0 (length split) (zero_value T)"
  have l: "length out1 = length split" by (simp add: out1_def resize_def)
  have f: "floats_loop T split 0 out1 = (False, out)"
    using assms by (simp add: SplitStringToFloats_def Let_def split_def out1_def split: if_splits)
  have len: "length out = length split"
    using floats_loop_length [OF f] l by simp
  obtain m where m: "m < length split" "ConvertStringToReal T (split ! m) = None"
    and before: "\<forall>j. 0 \<le> j \<and> j < m \<longrightarrow> ConvertStringToReal T (split ! j) = Some (out ! j)"
    and after: "\<forall>j. m \<le> j \<and> j < length split \<longrightarrow> out ! j = out1 ! j"
    using floats_loop_failure [OF f l] by blast
  have b: "\<forall>j. j < m \<longrightarrow> ConvertStringToReal T (split ! j) = Some (out ! j)"
    using before by simp
  have "m < length split \<and> ConvertStringToReal T (split ! m) = None \<and>
      (\<forall>j. j < m \<longrightarrow> ConvertStringToReal T (split ! j) = Some (out ! j)) \<and>
      (\<forall>j. m \<le> j \<and> j < length split \<longrightarrow> out ! j = out1 ! j)"
    using m b after by blast
  then have "\<exists>m. m < length split \<and> ConvertStringToReal T (split ! m) = None \<and>
      (\<forall>j. j < m \<longrightarrow> ConvertStringToReal T (split ! j) = Some (out ! j)) \<and>
      (\<forall>j. m \<le> j \<and> j < length split \<longrightarrow> out ! j = out1 ! j)"
    by (rule exI)
  then show ?thesis using len unfolding out1_def split_def by (rule conjI [rotated])
qed

text \<open>C1 on four pieces, the third of which is not a number.\<close>

theorem split_floats_failure_witness:
  "SplitStringToFloats decimal_type ''1,2,x,4'' '','' False [PInf] =
     (False, [Num 1 0, Num 2 0, Num 0 0, Num 0 0]) \<and>
   length [Num 1 0, Num 2 0, Num 0 0, Num 0 0] =
     length (SplitStringToVector ''1,2,x,4'' '','' False)"
proof -
  have r: "SplitStringToFloats decimal_type ''1,2,x,4'' '','' False [PInf] =
      (False, [Num 1 0, Num 2 0, Num 0 0, Num 0 0])"
    by code_simp
  show ?thesis
    using conjunct1 [OF split_floats_failure [OF r]] r by (rule conjI [rotated])
qed

text \<open>
  C1 as worded fails: the batch fails at its third piece and the output vector holds the
  values parsed from the first two.
\<close>

theorem split_floats_failure_counterexample:
  "SplitStringToFloats decimal_type ''1,2,x'' '','' False [] =
     (False, [Num 1 0, Num 2 0, Num 0 0]) \<and>
   ConvertStringToReal decimal_type ''1'' = Some (Num 1 0) \<and>
   ConvertStringToReal decimal_type ''2'' = Some (Num 2 0) \<and>
   ConvertStringToReal decimal_type ''x'' = None"
  by code_simp

text \<open>An empty input gives an empty result and true.\<close>

lemma split_floats_empty:
  "SplitStringToFloats T [] delim omit_empty out0 = (True, [])"
  by (simp add: SplitStringToFloats_def)

end
